theory Spec2Isabelle
  imports Main "HOL-Library.Word"
begin

unbundle bit_operations_syntax

section \<open>Bytes, slices and the bytewise comparator\<close>

text \<open>
  A C++ \<open>char\<close> buffer (\<open>std::string\<close>, \<open>Slice\<close>) is a list of 8-bit words.
  The bytewise comparator reads bytes as unsigned (\<open>memcmp\<close>, \<open>uint8_t\<close> casts).
\<close>

type_synonym byte = "8 word"
type_synonym bytes = "byte list"

definition bytes_of :: "string \<Rightarrow> bytes" where
  "bytes_of s = map of_char s"

text \<open>
  Modelled from the spec: \<open>Slice::compare\<close> (leveldb/slice.h is not among the sources).
  The default comparator is "lexicographic byte comparison": \<open>memcmp\<close> over the common
  length, then the shorter slice sorts first.
\<close>

fun memcmp :: "bytes \<Rightarrow> bytes \<Rightarrow> int" where
  "memcmp [] _ = 0"
| "memcmp _ [] = 0"
| "memcmp (a # as) (b # bs) =
     (if a < b then -1 else if b < a then 1 else memcmp as bs)"

definition slice_compare :: "bytes \<Rightarrow> bytes \<Rightarrow> int" where
  "slice_compare a b =
     (let r = memcmp a b in
      if r = 0 then
        (if length a < length b then -1
         else if length b < length a then 1
         else 0)
      else r)"

text \<open>\<open>BytewiseComparatorImpl::Compare\<close>.\<close>

definition bytewise_Compare :: "bytes \<Rightarrow> bytes \<Rightarrow> int" where
  "bytewise_Compare a b = slice_compare a b"

text \<open>
  The loop of \<open>FindShortestSeparator\<close> that finds the length of the common prefix:
  \<^verbatim>\<open>while ((diff_index < min_length) && ((*start)[diff_index] == limit[diff_index])) diff_index++;\<close>
\<close>

function find_diff_index :: "bytes \<Rightarrow> bytes \<Rightarrow> nat \<Rightarrow> nat \<Rightarrow> nat" where
  "find_diff_index start limit min_length diff_index =
     (if diff_index < min_length \<and> start ! diff_index = limit ! diff_index
      then find_diff_index start limit min_length (diff_index + 1)
      else diff_index)"
  by pat_completeness auto
termination
  by (relation "measure (\<lambda>(start, limit, min_length, diff_index). min_length - diff_index)") auto

declare find_diff_index.simps [simp del]

text \<open>
  \<open>BytewiseComparatorImpl::FindShortestSeparator(std::string* start, const Slice& limit)\<close>;
  the result is the new contents of \<open>*start\<close>. The test \<open>diff_byte + 1 < limit[diff_index]\<close>
  is on promoted \<open>int\<close>s, so it does not wrap; the increment of the byte is guarded by
  \<open>diff_byte < 0xff\<close>.
\<close>

definition FindShortestSeparator :: "bytes \<Rightarrow> bytes \<Rightarrow> bytes" where
  "FindShortestSeparator start limit =
     (let min_length = min (length start) (length limit);
          diff_index = find_diff_index start limit min_length 0
      in if diff_index \<ge> min_length then start
         else
           (let diff_byte = start ! diff_index
            in if diff_byte < 0xff \<and> unat diff_byte + 1 < unat (limit ! diff_index)
               then take (diff_index + 1) (start[diff_index := diff_byte + 1])
               else start))"

text \<open>
  \<open>BytewiseComparatorImpl::FindShortSuccessor(std::string* key)\<close>: the first byte that is
  not \<open>0xff\<close> is incremented and the key is cut after it; a run of \<open>0xff\<close>s is left alone.
\<close>

fun short_successor_loop :: "bytes \<Rightarrow> nat \<Rightarrow> nat \<Rightarrow> bytes" where
  "short_successor_loop key i 0 = key"
| "short_successor_loop key i (Suc left) =
     (let byte = key ! i
      in if byte \<noteq> 0xff then take (i + 1) (key[i := byte + 1])
         else short_successor_loop key (i + 1) left)"

definition FindShortSuccessor :: "bytes \<Rightarrow> bytes" where
  "FindShortSuccessor key = short_successor_loop key 0 (length key)"

subsection \<open>Facts about the byte order\<close>

lemma memcmp_refl [simp]: "memcmp a a = 0"
  by (induction a) auto

lemma memcmp_append_same: "memcmp (p @ a) (p @ b) = memcmp a b"
  by (induction p) auto

lemma slice_compare_append_same: "slice_compare (p @ a) (p @ b) = slice_compare a b"
  by (simp add: slice_compare_def memcmp_append_same Let_def)

lemma slice_compare_refl [simp]: "slice_compare a a = 0"
  by (simp add: slice_compare_def)

lemma slice_compare_Nil_left: "slice_compare [] b = (if b = [] then 0 else -1)"
  by (simp add: slice_compare_def)

lemma slice_compare_Cons_less: "a < b \<Longrightarrow> slice_compare (a # as) (b # bs) = -1"
  by (simp add: slice_compare_def)

lemma slice_compare_Cons_greater: "b < a \<Longrightarrow> slice_compare (a # as) (b # bs) = 1"
  by (simp add: slice_compare_def)

lemma slice_compare_Cons_same [simp]: "slice_compare (a # as) (a # bs) = slice_compare as bs"
  using slice_compare_append_same [of "[a]" as bs] by simp

lemma find_diff_index_bounds:
  "d \<le> m \<Longrightarrow> d \<le> find_diff_index s l m d \<and> find_diff_index s l m d \<le> m"
proof (induction s l m d rule: find_diff_index.induct)
  case (1 s l m d)
  show ?case
  proof (cases "d < m \<and> s ! d = l ! d")
    case True
    then have "d + 1 \<le> m" by simp
    from "1.IH" [OF True this] True show ?thesis
      by (subst (1 2) find_diff_index.simps) simp
  next
    case False
    with "1.prems" show ?thesis
      by (subst (1 2) find_diff_index.simps) auto
  qed
qed

lemma find_diff_index_equal:
  "d \<le> j \<Longrightarrow> j < find_diff_index s l m d \<Longrightarrow> s ! j = l ! j"
proof (induction s l m d rule: find_diff_index.induct)
  case (1 s l m d)
  show ?case
  proof (cases "d < m \<and> s ! d = l ! d")
    case True
    with "1.prems" have j: "j < find_diff_index s l m (d + 1)"
      by (subst (asm) find_diff_index.simps) simp
    show ?thesis
    proof (cases "j = d")
      case True
      with \<open>d < m \<and> s ! d = l ! d\<close> show ?thesis by simp
    next
      case False
      with "1.prems" have "d + 1 \<le> j" by simp
      from "1.IH" [OF True this j] show ?thesis .
    qed
  next
    case False
    with "1.prems" show ?thesis
      by (subst (asm) find_diff_index.simps) auto
  qed
qed

lemma find_diff_index_differs:
  "find_diff_index s l m d < m \<Longrightarrow>
   s ! find_diff_index s l m d \<noteq> l ! find_diff_index s l m d"
proof (induction s l m d rule: find_diff_index.induct)
  case (1 s l m d)
  show ?case
  proof (cases "d < m \<and> s ! d = l ! d")
    case True
    then have eq: "find_diff_index s l m d = find_diff_index s l m (d + 1)"
      by (subst find_diff_index.simps) simp
    from "1.IH" [OF True] "1.prems" show ?thesis
      unfolding eq by simp
  next
    case False
    then have eq: "find_diff_index s l m d = d"
      by (subst find_diff_index.simps) auto
    from False "1.prems" show ?thesis
      unfolding eq by auto
  qed
qed


lemma take_find_diff_index:
  assumes "i = find_diff_index s l (min (length s) (length l)) 0"
  shows "take i s = take i l"
proof (rule nth_equalityI)
  have "i \<le> min (length s) (length l)"
    using find_diff_index_bounds [of 0 "min (length s) (length l)" s l] assms by simp
  then show "length (take i s) = length (take i l)" by simp
next
  fix j assume "j < length (take i s)"
  then have "j < i" by simp
  then have "s ! j = l ! j"
    using find_diff_index_equal [of 0 j s l "min (length s) (length l)"] assms by simp
  with \<open>j < i\<close> show "take i s ! j = take i l ! j" by simp
qed

lemma word8_succ_less:
  fixes a b :: byte
  assumes "unat a + 1 < unat b"
  shows "a < a + 1" and "a + 1 < b"
proof -
  have "unat b < 256" using unsigned_less [of b, where 'a = nat] by simp
  with assms have u: "unat (a + 1) = unat a + 1"
    by (simp add: unat_word_ariths)
  then show "a < a + 1" by (simp add: word_less_nat_alt)
  from u assms show "a + 1 < b" by (simp add: word_less_nat_alt)
qed

section \<open>Claim C6: the shortest separator\<close>

text \<open>
  C6. For all byte strings \<open>start\<close> and \<open>limit\<close> with \<open>start < limit\<close> under the bytewise
  comparator, let \<open>i\<close> be the index of the first differing byte (the length of the common
  prefix). \<open>FindShortestSeparator\<close> either replaces \<open>start[i]\<close> by \<open>start[i] + 1\<close> and cuts
  \<open>start\<close> to length \<open>i + 1\<close>, which it does exactly when \<open>i\<close> is inside both strings and
  the incremented byte is still below \<open>limit[i]\<close>, or leaves \<open>start\<close> unchanged; in both
  cases \<open>old_start \<le> new_start < limit\<close>.
\<close>

theorem FindShortestSeparator_separates:
  assumes lt: "bytewise_Compare start limit < 0"
  shows "\<exists>i. i \<le> min (length start) (length limit)
           \<and> take i start = take i limit
           \<and> (i < min (length start) (length limit) \<longrightarrow> start ! i \<noteq> limit ! i)
           \<and> FindShortestSeparator start limit =
               (if i < min (length start) (length limit) \<and> unat (start ! i) + 1 < unat (limit ! i)
                then take i start @ [start ! i + 1]
                else start)
           \<and> bytewise_Compare start (FindShortestSeparator start limit) \<le> 0
           \<and> bytewise_Compare (FindShortestSeparator start limit) limit < 0"
proof -
  define m where "m = min (length start) (length limit)"
  define i where "i = find_diff_index start limit m 0"
  have i_le: "i \<le> m"
    using find_diff_index_bounds [of 0 m start limit] by (simp add: i_def)
  have pre: "take i start = take i limit"
    using take_find_diff_index [of i start limit] by (simp add: i_def m_def)
  have diff: "i < m \<longrightarrow> start ! i \<noteq> limit ! i"
    using find_diff_index_differs [of start limit m 0] by (simp add: i_def)
  show ?thesis
  proof (cases "i < m")
    case False
    then have same: "FindShortestSeparator start limit = start"
      by (simp add: FindShortestSeparator_def Let_def i_def [symmetric] m_def [symmetric])
    from False i_le pre diff lt show ?thesis
      unfolding same by (intro exI [of _ i]) (auto simp: m_def bytewise_Compare_def)
  next
    case True
    define p where "p = take i start"
    define a where "a = start ! i"
    define b where "b = limit ! i"
    from True have s: "start = p @ a # drop (Suc i) start"
      by (simp add: p_def a_def m_def id_take_nth_drop [symmetric])
    from True pre have l: "limit = p @ b # drop (Suc i) limit"
      by (simp add: p_def b_def m_def id_take_nth_drop [symmetric])
    from diff True have ab: "a \<noteq> b" by (simp add: a_def b_def)
    have "slice_compare (a # drop (Suc i) start) (b # drop (Suc i) limit) < 0"
      using lt slice_compare_append_same [of p "a # drop (Suc i) start" "b # drop (Suc i) limit"]
        s l by (simp add: bytewise_Compare_def)
    with ab have a_lt_b: "a < b"
      using slice_compare_Cons_greater [of b a] by (cases "b < a") auto
    then have a_ff: "a < 0xff"
      using unsigned_less [of b, where 'a = nat]
      by (simp add: word_less_nat_alt)
    show ?thesis
    proof (cases "unat a + 1 < unat b")
      case False
      then have same: "FindShortestSeparator start limit = start"
        using True by (simp add: FindShortestSeparator_def Let_def i_def [symmetric]
            m_def [symmetric] a_def [symmetric] b_def [symmetric])
      from False True i_le pre diff lt show ?thesis
        unfolding same by (intro exI [of _ i]) (auto simp: m_def bytewise_Compare_def a_def b_def)
    next
      case inc: True
      have upd: "take (i + 1) (start[i := a + 1]) = p @ [a + 1]"
        using True by (simp add: p_def m_def take_Suc_conv_app_nth)
      have new: "FindShortestSeparator start limit = p @ [a + 1]"
        using True inc a_ff upd
        by (simp add: FindShortestSeparator_def Let_def i_def [symmetric] m_def [symmetric]
            a_def [symmetric] b_def [symmetric])
      have c1: "slice_compare start (p @ [a + 1]) = -1"
        using slice_compare_append_same [of p "a # drop (Suc i) start" "[a + 1]"] s
          slice_compare_Cons_less [OF word8_succ_less(1) [OF inc]] by simp
      have c2: "slice_compare (p @ [a + 1]) limit = -1"
        using slice_compare_append_same [of p "[a + 1]" "b # drop (Suc i) limit"] l
          slice_compare_Cons_less [OF word8_succ_less(2) [OF inc]] by simp
      from True inc i_le pre diff c1 c2 show ?thesis
        unfolding new
        by (intro exI [of _ i]) (auto simp: m_def bytewise_Compare_def a_def b_def p_def)
    qed
  qed
qed

theorem FindShortestSeparator_separates_witness:
  "bytewise_Compare (bytes_of ''abcdef'') (bytes_of ''abf'') < 0
   \<and> FindShortestSeparator (bytes_of ''abcdef'') (bytes_of ''abf'') = bytes_of ''abd''
   \<and> (\<exists>i. i \<le> min (length (bytes_of ''abcdef'')) (length (bytes_of ''abf''))
        \<and> bytewise_Compare (bytes_of ''abcdef'')
             (FindShortestSeparator (bytes_of ''abcdef'') (bytes_of ''abf'')) \<le> 0
        \<and> bytewise_Compare (FindShortestSeparator (bytes_of ''abcdef'') (bytes_of ''abf''))
             (bytes_of ''abf'') < 0)"
proof -
  have h: "bytewise_Compare (bytes_of ''abcdef'') (bytes_of ''abf'') < 0"
    by (simp add: bytewise_Compare_def slice_compare_def bytes_of_def)
  have v: "FindShortestSeparator (bytes_of ''abcdef'') (bytes_of ''abf'') = bytes_of ''abd''"
    by (simp add: FindShortestSeparator_def find_diff_index.simps bytes_of_def Let_def)
  from FindShortestSeparator_separates [OF h] h v show ?thesis by blast
qed


section \<open>Integer coding\<close>

text \<open>
  Modelled from the spec: the coding helpers of util/coding.cc (\<open>PutVarint32\<close>,
  \<open>PutVarint64\<close>, \<open>GetVarint32\<close>, \<open>PutFixed32\<close>, \<open>DecodeFixed32\<close>, ...), which are not
  among the sources. "Varint: little-endian base-128; each byte has a continuation bit
  (MSB=1 means more bytes follow). 1-5 bytes for 32-bit values, 1-10 for 64-bit";
  "fixed32/fixed64: little-endian fixed-width". Sizes (\<open>size_t\<close>) are natural numbers;
  the conversion to \<open>uint32_t\<close> at a call is written out as \<open>mod 2 ^ 32\<close>.
\<close>

function encode_varint :: "nat \<Rightarrow> bytes" where
  "encode_varint v =
     (if v < 128 then [of_nat v]
      else of_nat (v mod 128 + 128) # encode_varint (v div 128))"
  by pat_completeness auto
termination
  by (relation "measure (\<lambda>v. v)") auto

declare encode_varint.simps [simp del]

definition PutVarint32 :: "bytes \<Rightarrow> nat \<Rightarrow> bytes" where
  "PutVarint32 dst v = dst @ encode_varint (v mod 2 ^ 32)"

definition PutVarint64 :: "bytes \<Rightarrow> nat \<Rightarrow> bytes" where
  "PutVarint64 dst v = dst @ encode_varint (v mod 2 ^ 64)"

text \<open>
  Decoding reads at most \<open>n\<close> bytes (5 for a 32-bit value, 10 for a 64-bit one) and
  fails when the input ends, or the last of them still has its continuation bit. It
  returns the value and the rest of the input.
\<close>

fun decode_varint :: "nat \<Rightarrow> bytes \<Rightarrow> (nat \<times> bytes) option" where
  "decode_varint 0 bs = None"
| "decode_varint (Suc n) [] = None"
| "decode_varint (Suc n) (b # bs) =
     (if unat b < 128 then Some (unat b, bs)
      else (case decode_varint n bs of
              None \<Rightarrow> None
            | Some (v, rest) \<Rightarrow> Some (unat b - 128 + 128 * v, rest)))"

definition GetVarint32 :: "bytes \<Rightarrow> (nat \<times> bytes) option" where
  "GetVarint32 input =
     (case decode_varint 5 input of
        None \<Rightarrow> None
      | Some (v, rest) \<Rightarrow> Some (v mod 2 ^ 32, rest))"

text \<open>
  \<open>GetLengthPrefixedSlice(Slice* input, Slice* result)\<close>: a varint32 length, then that many
  bytes; it fails when the length does not decode or the input is shorter.
\<close>

definition GetLengthPrefixedSlice :: "bytes \<Rightarrow> (bytes \<times> bytes) option" where
  "GetLengthPrefixedSlice input =
     (case GetVarint32 input of
        None \<Rightarrow> None
      | Some (len, rest) \<Rightarrow>
          if length rest \<ge> len then Some (take len rest, drop len rest) else None)"

definition PutLengthPrefixedSlice :: "bytes \<Rightarrow> bytes \<Rightarrow> bytes" where
  "PutLengthPrefixedSlice dst v = PutVarint32 dst (length v) @ v"

fun encode_fixed :: "nat \<Rightarrow> nat \<Rightarrow> bytes" where
  "encode_fixed 0 v = []"
| "encode_fixed (Suc n) v = of_nat (v mod 256) # encode_fixed n (v div 256)"

fun decode_fixed :: "bytes \<Rightarrow> nat" where
  "decode_fixed [] = 0"
| "decode_fixed (b # bs) = unat b + 256 * decode_fixed bs"

definition PutFixed32 :: "bytes \<Rightarrow> nat \<Rightarrow> bytes" where
  "PutFixed32 dst v = dst @ encode_fixed 4 (v mod 2 ^ 32)"

definition EncodeFixed64 :: "nat \<Rightarrow> bytes" where
  "EncodeFixed64 v = encode_fixed 8 (v mod 2 ^ 64)"

definition DecodeFixed32 :: "bytes \<Rightarrow> nat" where
  "DecodeFixed32 p = decode_fixed (take 4 p)"

definition DecodeFixed64 :: "bytes \<Rightarrow> nat" where
  "DecodeFixed64 p = decode_fixed (take 8 p)"

subsection \<open>Round trips\<close>

lemma unat_of_nat_byte: "n < 256 \<Longrightarrow> unat (of_nat n :: byte) = n"
  by (simp add: unat_of_nat)

lemma decode_encode_fixed:
  "v < 256 ^ n \<Longrightarrow> decode_fixed (encode_fixed n v @ rest) = v + 256 ^ n * decode_fixed rest"
proof (induction n arbitrary: v)
  case 0
  then show ?case by simp
next
  case (Suc n)
  from Suc.prems have "v div 256 < 256 ^ n"
    by (simp add: less_mult_imp_div_less mult.commute)
  from Suc.IH [OF this] show ?case
    by (simp add: unat_of_nat_byte algebra_simps)
qed

lemma length_encode_fixed [simp]: "length (encode_fixed n v) = n"
  by (induction n arbitrary: v) auto

lemma DecodeFixed64_EncodeFixed64:
  "v < 2 ^ 64 \<Longrightarrow> DecodeFixed64 (EncodeFixed64 v @ rest) = v"
  using decode_encode_fixed [of v 8 "[]"]
  by (simp add: DecodeFixed64_def EncodeFixed64_def)

lemma DecodeFixed32_PutFixed32:
  "v < 2 ^ 32 \<Longrightarrow> DecodeFixed32 (PutFixed32 [] v @ rest) = v"
  using decode_encode_fixed [of v 4 "[]"]
  by (simp add: DecodeFixed32_def PutFixed32_def)

lemma encode_varint_not_Nil: "encode_varint v \<noteq> []"
  by (subst encode_varint.simps) simp

lemma decode_encode_varint:
  "v < 128 ^ Suc n \<Longrightarrow> decode_varint (Suc n) (encode_varint v @ rest) = Some (v, rest)"
proof (induction n arbitrary: v)
  case 0
  then have u: "unat (of_nat v :: byte) = v"
    by (simp add: unat_of_nat_byte)
  have e: "encode_varint v = [of_nat v]"
    using 0 by (subst encode_varint.simps) simp
  show ?case
    unfolding e using 0 u by simp
next
  case (Suc n)
  show ?case
  proof (cases "v < 128")
    case True
    then have u: "unat (of_nat v :: byte) = v"
      by (simp add: unat_of_nat_byte)
    have e: "encode_varint v = [of_nat v]"
      using True by (subst encode_varint.simps) simp
    show ?thesis
      unfolding e using True u by simp
  next
    case False
    from Suc.prems have "v div 128 < 128 ^ Suc n"
      by (simp add: less_mult_imp_div_less mult.commute)
    note ih = Suc.IH [OF this]
    have "v mod 128 + 128 < 256" by simp
    then have u: "unat (of_nat (v mod 128 + 128) :: byte) = v mod 128 + 128"
      by (rule unat_of_nat_byte)
    have e: "encode_varint v = of_nat (v mod 128 + 128) # encode_varint (v div 128)"
      using False by (subst encode_varint.simps) simp
    show ?thesis
      unfolding e using ih u by simp
  qed
qed

lemma GetVarint32_PutVarint32:
  "v < 2 ^ 32 \<Longrightarrow> GetVarint32 (PutVarint32 [] v @ rest) = Some (v, rest)"
proof -
  assume v: "v < 2 ^ 32"
  then have "v < 128 ^ Suc 4" by simp
  from decode_encode_varint [OF this, of rest]
  have "decode_varint 5 (encode_varint v @ rest) = Some (v, rest)"
    by (simp only: Suc_numeral BitM.simps pred_numeral_simps arith_simps)
  with v show ?thesis
    by (simp add: GetVarint32_def PutVarint32_def)
qed

lemma GetLengthPrefixedSlice_Put:
  "length v < 2 ^ 32 \<Longrightarrow>
   GetLengthPrefixedSlice (PutLengthPrefixedSlice [] v @ rest) = Some (v, rest)"
  using GetVarint32_PutVarint32 [of "length v" "v @ rest"]
  by (simp add: GetLengthPrefixedSlice_def PutLengthPrefixedSlice_def)


section \<open>Options, comparators and filter policies\<close>

text \<open>
  A \<open>Comparator\<close> object is a record of its virtual functions; \<open>cmp_addr\<close> stands for the
  address of the object, which \<open>TableBuilder::ChangeOptions\<close> compares. The fields of
  \<open>Options\<close> are those the table code reads (leveldb/options.h is not among the sources).
\<close>

record Comparator =
  cmp_addr :: nat
  Compare :: "bytes \<Rightarrow> bytes \<Rightarrow> int"
  ShortestSeparator :: "bytes \<Rightarrow> bytes \<Rightarrow> bytes"
  ShortSuccessor :: "bytes \<Rightarrow> bytes"

definition BytewiseComparator :: Comparator where
  "BytewiseComparator =
     \<lparr> cmp_addr = 0,
       Compare = bytewise_Compare,
       ShortestSeparator = FindShortestSeparator,
       ShortSuccessor = FindShortSuccessor \<rparr>"

record FilterPolicy =
  policy_Name :: bytes
  CreateFilter :: "bytes list \<Rightarrow> bytes"

datatype CompressionType = kNoCompression | kSnappyCompression

record Options =
  comparator :: Comparator
  block_size :: nat
  block_restart_interval :: int
  compression :: CompressionType
  filter_policy :: "FilterPolicy option"

section \<open>BlockBuilder\<close>

text \<open>
  \<open>BlockBuilder\<close> keeps a pointer to the \<open>Options\<close> it was built with, so every member
  function takes the current \<open>Options\<close> as an argument. An \<open>assert\<close> that fails is the
  result \<open>None\<close>. \<open>restarts\<close> is a \<open>std::vector<uint32_t>\<close> and \<open>counter\<close> an \<open>int\<close>. The members
  drop the trailing underscore of the source (\<open>buffer_\<close>, \<open>restarts_\<close>, \<open>counter_\<close>,
  \<open>finished_\<close>), which Isabelle does not allow in a name; \<open>last_key_\<close> is \<open>bb_last_key\<close>.
\<close>

record BlockBuilder =
  buffer :: bytes
  restarts :: "nat list"
  counter :: int
  finished :: bool
  bb_last_key :: bytes

definition BlockBuilder_new :: "Options \<Rightarrow> BlockBuilder option" where
  "BlockBuilder_new opts =
     (if \<not> block_restart_interval opts \<ge> 1 then None
      else Some \<lparr> buffer = [], restarts = [0], counter = 0, finished = False,
                  bb_last_key = [] \<rparr>)"

definition BlockBuilder_Reset :: "BlockBuilder \<Rightarrow> BlockBuilder" where
  "BlockBuilder_Reset b =
     b\<lparr> buffer := [], restarts := [0], counter := 0, finished := False, bb_last_key := [] \<rparr>"

definition CurrentSizeEstimate :: "BlockBuilder \<Rightarrow> nat" where
  "CurrentSizeEstimate b = length (buffer b) + length (restarts b) * 4 + 4"

text \<open>\<open>bool empty() const { return buffer_.empty(); }\<close> (table/block_builder.h).\<close>

definition BlockBuilder_empty :: "BlockBuilder \<Rightarrow> bool" where
  "BlockBuilder_empty b = (buffer b = [])"

text \<open>\<open>Slice BlockBuilder::Finish()\<close>: the returned slice and the builder after the call.\<close>

definition BlockBuilder_Finish :: "BlockBuilder \<Rightarrow> bytes \<times> BlockBuilder" where
  "BlockBuilder_Finish b =
     (let buf = PutFixed32 (foldl PutFixed32 (buffer b) (restarts b)) (length (restarts b));
          b' = b\<lparr> buffer := buf, finished := True \<rparr>
      in (buf, b'))"

text \<open>
  \<open>void BlockBuilder::Add(const Slice& key, const Slice& value)\<close>. The loop that counts the
  shared bytes is the loop of \<open>find_diff_index\<close>, started at 0.
\<close>

definition BlockBuilder_Add ::
  "Options \<Rightarrow> BlockBuilder \<Rightarrow> bytes \<Rightarrow> bytes \<Rightarrow> BlockBuilder option" where
  "BlockBuilder_Add opts b key val =
     (let last_key_piece = bb_last_key b in
      if finished b then None
      else if \<not> counter b \<le> block_restart_interval opts then None
      else if \<not> (buffer b = [] \<or> Compare (comparator opts) key last_key_piece > 0) then None
      else
        (let (shared, restarts, counter) =
               (if counter b < block_restart_interval opts
                then (find_diff_index last_key_piece key
                        (min (length last_key_piece) (length key)) 0,
                      restarts b, counter b)
                else (0, restarts b @ [length (buffer b) mod 2 ^ 32], 0));
             non_shared = length key - shared;
             buf = PutVarint32 (PutVarint32 (PutVarint32 (buffer b) shared) non_shared)
                     (length val);
             buf = buf @ take non_shared (drop shared key);
             buf = buf @ val;
             last_key = take shared (bb_last_key b) @ take non_shared (drop shared key)
         in if last_key \<noteq> key then None
            else Some (b\<lparr> buffer := buf, restarts := restarts, counter := counter + 1,
                          bb_last_key := last_key \<rparr>)))"

text \<open>A caller's loop: one \<open>Add\<close> per key/value pair, in order.\<close>

fun Add_all :: "Options \<Rightarrow> BlockBuilder \<Rightarrow> (bytes \<times> bytes) list \<Rightarrow> BlockBuilder option" where
  "Add_all opts b [] = Some b"
| "Add_all opts b ((k, v) # kvs) =
     (case BlockBuilder_Add opts b k v of
        None \<Rightarrow> None
      | Some b' \<Rightarrow> Add_all opts b' kvs)"

subsection \<open>The block entry format, and what each entry shares\<close>

text \<open>
  The spec's block entry:
  \<open>varint32(shared) || varint32(non_shared) || varint32(value_size) || key_delta || value\<close>.
\<close>

definition block_entry :: "nat \<Rightarrow> bytes \<Rightarrow> bytes \<Rightarrow> bytes" where
  "block_entry shared key val =
     PutVarint32 (PutVarint32 (PutVarint32 [] shared) (length key - shared)) (length val)
       @ drop shared key @ val"

fun common_prefix_len :: "bytes \<Rightarrow> bytes \<Rightarrow> nat" where
  "common_prefix_len (a # as) (b # bs) = (if a = b then Suc (common_prefix_len as bs) else 0)"
| "common_prefix_len _ _ = 0"

text \<open>
  What the claim says entry \<open>i\<close> (counted from 0) of a block with restart interval \<open>r\<close>
  shares with the key before it.
\<close>

definition entry_shared :: "nat \<Rightarrow> bytes list \<Rightarrow> nat \<Rightarrow> nat" where
  "entry_shared r keys i =
     (if i mod r = 0 then 0 else common_prefix_len (keys ! (i - 1)) (keys ! i))"

definition entry_bytes :: "nat \<Rightarrow> (bytes \<times> bytes) list \<Rightarrow> nat \<Rightarrow> bytes" where
  "entry_bytes r kvs i =
     block_entry (entry_shared r (map fst kvs) i) (fst (kvs ! i)) (snd (kvs ! i))"

definition entry_offset :: "nat \<Rightarrow> (bytes \<times> bytes) list \<Rightarrow> nat \<Rightarrow> nat" where
  "entry_offset r kvs i = length (concat (map (entry_bytes r kvs) [0..<i]))"


subsection \<open>One step, and the builder after any number of steps\<close>

lemma find_diff_index_drop:
  "d \<le> min (length a) (length b) \<Longrightarrow>
   find_diff_index a b (min (length a) (length b)) d
     = d + common_prefix_len (drop d a) (drop d b)"
proof (induction a b "min (length a) (length b)" d rule: find_diff_index.induct)
  case (1 s l d)
  let ?m = "min (length s) (length l)"
  show ?case
  proof (cases "d < ?m")
    case False
    with "1.prems" have "d = ?m" by arith
    then have "drop d s = [] \<or> drop d l = []" by (auto simp: min_def split: if_splits)
    then have "common_prefix_len (drop d s) (drop d l) = 0"
      by (cases "drop d s") auto
    with False show ?thesis
      by (subst find_diff_index.simps) auto
  next
    case True
    then have ds: "drop d s = s ! d # drop (Suc d) s" and dl: "drop d l = l ! d # drop (Suc d) l"
      by (simp_all add: Cons_nth_drop_Suc)
    show ?thesis
    proof (cases "s ! d = l ! d")
      case eq: True
      from True have "d + 1 \<le> ?m" by simp
      from True eq have c: "d < ?m \<and> s ! d = l ! d" by simp
      from "1.hyps" [OF c \<open>d + 1 \<le> ?m\<close>] True eq show ?thesis
        by (subst find_diff_index.simps) (auto simp: ds dl)
    next
      case False
      then show ?thesis
        by (subst find_diff_index.simps) (auto simp: ds dl)
    qed
  qed
qed

lemma find_diff_index_common_prefix_len:
  "find_diff_index a b (min (length a) (length b)) 0 = common_prefix_len a b"
  using find_diff_index_drop [of 0 a b] by simp

lemma common_prefix_len_le: "common_prefix_len a b \<le> length a \<and> common_prefix_len a b \<le> length b"
  by (induction a b rule: common_prefix_len.induct) auto

lemma take_common_prefix_len: "take (common_prefix_len a b) a = take (common_prefix_len a b) b"
  by (induction a b rule: common_prefix_len.induct) auto


lemma BlockBuilder_Add_step:
  assumes "\<not> finished b" and "counter b \<le> block_restart_interval opts"
    and "buffer b = [] \<or> Compare (comparator opts) key (bb_last_key b) > 0"
  shows "BlockBuilder_Add opts b key val =
     Some (b\<lparr> buffer := buffer b @
                  block_entry (if counter b < block_restart_interval opts
                               then common_prefix_len (bb_last_key b) key else 0) key val,
              restarts := (if counter b < block_restart_interval opts then restarts b
                           else restarts b @ [length (buffer b) mod 2 ^ 32]),
              counter := (if counter b < block_restart_interval opts then counter b + 1 else 1),
              bb_last_key := key \<rparr>)"
proof -
  let ?c = "common_prefix_len (bb_last_key b) key"
  have le: "?c \<le> length key" using common_prefix_len_le by blast
  have k: "take ?c (bb_last_key b) @ drop ?c key = key"
    using take_common_prefix_len [of "bb_last_key b" key] by simp
  show ?thesis
    using assms le k
    by (simp add: BlockBuilder_Add_def Let_def find_diff_index_common_prefix_len
        block_entry_def PutVarint32_def)
qed

lemma Add_all_snoc:
  "Add_all opts b (kvs @ [(k, v)]) =
     (case Add_all opts b kvs of None \<Rightarrow> None | Some b' \<Rightarrow> BlockBuilder_Add opts b' k v)"
  by (induction kvs arbitrary: b) (auto split: option.splits)

lemma entry_bytes_snoc: "i < length kvs \<Longrightarrow> entry_bytes r (kvs @ [kv]) i = entry_bytes r kvs i"
  by (cases "i = 0") (auto simp: entry_bytes_def entry_shared_def nth_append)

lemma entry_offset_snoc:
  "i \<le> length kvs \<Longrightarrow> entry_offset r (kvs @ [kv]) i = entry_offset r kvs i"
proof -
  assume "i \<le> length kvs"
  then have eq: "map (entry_bytes r (kvs @ [kv])) [0..<i] = map (entry_bytes r kvs) [0..<i]"
    by (intro map_cong refl) (simp add: entry_bytes_snoc)
  show ?thesis unfolding entry_offset_def eq ..
qed

text \<open>The builder after the pairs \<open>kvs\<close> have been added to a fresh one.\<close>

definition built_block :: "nat \<Rightarrow> (bytes \<times> bytes) list \<Rightarrow> BlockBuilder" where
  "built_block r kvs =
     \<lparr> buffer = concat (map (entry_bytes r kvs) [0..<length kvs]),
       restarts = 0 # map (\<lambda>i. entry_offset r kvs i mod 2 ^ 32)
                         (filter (\<lambda>i. i mod r = 0) [1..<length kvs]),
       counter = (if kvs = [] then 0 else int ((length kvs - 1) mod r) + 1),
       finished = False,
       bb_last_key = (if kvs = [] then [] else fst (last kvs)) \<rparr>"

lemma BlockBuilder_Add_built_block:
  assumes r: "1 \<le> r" "block_restart_interval opts = int r"
    and ord: "kvs = [] \<or> Compare (comparator opts) k (fst (last kvs)) > 0"
  shows "BlockBuilder_Add opts (built_block r kvs) k v = Some (built_block r (kvs @ [(k, v)]))"
proof -
  define kv where "kv = (k, v)"
  have kv: "kv = (k, v)" by (simp add: kv_def)
  let ?b = "built_block r kvs"
  let ?n = "length kvs"
  have a1: "\<not> finished ?b" by (simp add: built_block_def)
  have "(length kvs - 1) mod r < r" using r by simp
  then have "int ((length kvs - 1) mod r) + 1 \<le> int r" by linarith
  then have a2: "counter ?b \<le> block_restart_interval opts"
    using r by (simp add: built_block_def)
  have a3: "buffer ?b = [] \<or> Compare (comparator opts) k (bb_last_key ?b) > 0"
    using ord by (auto simp: built_block_def)
  have restart_iff: "counter ?b < block_restart_interval opts \<longleftrightarrow> \<not> (?n \<noteq> 0 \<and> ?n mod r = 0)"
  proof (cases "?n = 0")
    case True
    with r show ?thesis by (simp add: built_block_def)
  next
    case False
    then obtain m where m: "?n = Suc m" by (cases ?n) auto
    have "m mod r < r" using r by simp
    then have "m mod r + 1 < r \<longleftrightarrow> Suc m mod r \<noteq> 0"
      by (auto simp: mod_Suc)
    with False r m show ?thesis
      by (auto simp: built_block_def)
  qed
  have sh: "(if counter ?b < block_restart_interval opts
             then common_prefix_len (bb_last_key ?b) k else 0)
            = entry_shared r (map fst (kvs @ [kv])) ?n"
  proof (cases "?n = 0")
    case True
    then show ?thesis using r by (simp add: built_block_def entry_shared_def)
  next
    case False
    then have "kvs \<noteq> []" by auto
    then have "fst (last kvs) = map fst (kvs @ [kv]) ! (?n - 1)"
      by (simp add: last_conv_nth nth_append)
    with False restart_iff \<open>kvs \<noteq> []\<close> show ?thesis
      by (auto simp: built_block_def entry_shared_def kv nth_append)
  qed
  have buf: "buffer (built_block r (kvs @ [kv]))
             = buffer ?b @ block_entry (entry_shared r (map fst (kvs @ [kv])) ?n) k v"
  proof -
    have eq: "map (entry_bytes r (kvs @ [kv])) [0..<?n] = map (entry_bytes r kvs) [0..<?n]"
      by (intro map_cong refl) (simp add: entry_bytes_snoc)
    have "entry_bytes r (kvs @ [kv]) ?n
                   = block_entry (entry_shared r (map fst (kvs @ [kv])) ?n) k v"
      by (simp add: entry_bytes_def kv)
    then show ?thesis by (simp add: built_block_def eq)
  qed
  have off: "entry_offset r (kvs @ [kv]) ?n = length (buffer ?b)"
    using entry_offset_snoc [of ?n kvs r kv] by (simp add: built_block_def entry_offset_def)
  have rst: "restarts (built_block r (kvs @ [kv]))
             = (if counter ?b < block_restart_interval opts then restarts ?b
                else restarts ?b @ [length (buffer ?b) mod 2 ^ 32])"
  proof (cases "?n = 0")
    case True
    with r show ?thesis by (simp add: built_block_def)
  next
    case False
    then have n1: "Suc 0 \<le> ?n" by (cases kvs) auto
    let ?P = "\<lambda>i. i mod r = 0"
    have flt: "filter ?P [1..<Suc ?n] = filter ?P [1..<?n] @ (if ?n mod r = 0 then [?n] else [])"
      using n1 by simp
    have eq: "map (\<lambda>i. entry_offset r (kvs @ [kv]) i mod 2 ^ 32) (filter ?P [1..<?n])
          = map (\<lambda>i. entry_offset r kvs i mod 2 ^ 32) (filter ?P [1..<?n])"
      by (intro map_cong refl) (simp add: entry_offset_snoc)
    have "restarts (built_block r (kvs @ [kv]))
          = 0 # map (\<lambda>i. entry_offset r (kvs @ [kv]) i mod 2 ^ 32) (filter ?P [1..<Suc ?n])"
      by (simp add: built_block_def)
    also have "\<dots> = 0 # map (\<lambda>i. entry_offset r kvs i mod 2 ^ 32) (filter ?P [1..<?n])
                      @ (if ?n mod r = 0 then [length (buffer ?b) mod 2 ^ 32] else [])"
      unfolding flt map_append eq using off by simp
    also have "\<dots> = (if counter ?b < block_restart_interval opts then restarts ?b
                else restarts ?b @ [length (buffer ?b) mod 2 ^ 32])"
      using False restart_iff by (auto simp: built_block_def)
    finally show ?thesis .
  qed
  have cnt: "counter (built_block r (kvs @ [kv]))
             = (if counter ?b < block_restart_interval opts then counter ?b + 1 else 1)"
  proof (cases "?n = 0")
    case True
    with r show ?thesis by (simp add: built_block_def)
  next
    case False
    then obtain m where m: "?n = Suc m" by (cases ?n) auto
    have "m mod r < r" using r by simp
    then have "Suc m mod r \<noteq> 0 \<Longrightarrow> int (Suc m mod r) = int (m mod r) + 1"
      by (auto simp: mod_Suc)
    with False restart_iff m r show ?thesis
      by (auto simp: built_block_def)
  qed
  have step: "BlockBuilder_Add opts ?b k v = Some (built_block r (kvs @ [kv]))"
    unfolding BlockBuilder_Add_step [OF a1 a2 a3] sh
    using buf rst cnt by (simp add: built_block_def kv)
  then show ?thesis by (simp add: kv)
qed

lemma Add_all_built_block:
  assumes r: "1 \<le> r" "block_restart_interval opts = int r"
    and inc: "successively (\<lambda>a b. Compare (comparator opts) b a > 0) (map fst kvs)"
  shows "Add_all opts (built_block r []) kvs = Some (built_block r kvs)"
  using inc
proof (induction kvs rule: rev_induct)
  case Nil
  show ?case by simp
next
  case (snoc kv kvs)
  obtain k v where kv: "kv = (k, v)" by (cases kv)
  from snoc.prems have inc': "successively (\<lambda>a b. Compare (comparator opts) b a > 0) (map fst kvs)"
    and ord: "kvs = [] \<or> Compare (comparator opts) k (fst (last kvs)) > 0"
    by (cases "kvs = []"; simp add: successively_append_iff kv last_map)+
  note ih = snoc.IH [OF inc']
  show ?case
    unfolding kv Add_all_snoc ih using BlockBuilder_Add_built_block [OF r ord] by simp
qed


text \<open>The block of the spec's scenario 4: restart interval 2, four keys, each value "vv".\<close>

definition example_options :: Options where
  "example_options =
     \<lparr> comparator = BytewiseComparator, block_size = 4096, block_restart_interval = 2,
       compression = kNoCompression, filter_policy = None \<rparr>"

definition example_block :: "(bytes \<times> bytes) list" where
  "example_block =
     [(bytes_of ''Axl'', bytes_of ''vv''), (bytes_of ''Axlaa'', bytes_of ''vv''),
      (bytes_of ''Axlab'', bytes_of ''vv''), (bytes_of ''Axlbb'', bytes_of ''vv'')]"

section \<open>Claim C5: restart points of a block\<close>

text \<open>
  C5. A \<open>BlockBuilder\<close> with \<open>block_restart_interval = r \<ge> 1\<close> is fed keys that increase
  strictly under its comparator. Then every \<open>Add\<close> succeeds, and entry \<open>i\<close> (from 0) is
  stored in the spec's entry format with \<open>shared = 0\<close> when \<open>i\<close> is a multiple of \<open>r\<close> and
  with \<open>shared\<close> the length of the longest common prefix with the previous key otherwise;
  the restart array holds 0 and the byte offsets (as \<open>uint32_t\<close>) of the entries
  \<open>r, 2r, ...\<close>. With \<open>r = 2\<close> and the keys "Axl", "Axlaa", "Axlab", "Axlbb" (values
  "vv") the shared lengths are 0, 3, 0, 3 and the restart array is [0, 15], the offsets of
  the first and the third entry (see the witness).
\<close>

theorem BlockBuilder_restart_points:
  assumes "1 \<le> r" and "block_restart_interval opts = int r"
    and "successively (\<lambda>a b. Compare (comparator opts) b a > 0) (map fst kvs)"
  shows "\<exists>b0 b. BlockBuilder_new opts = Some b0 \<and> Add_all opts b0 kvs = Some b
           \<and> buffer b =
               concat (map (\<lambda>i. block_entry
                                   (if i mod r = 0 then 0
                                    else common_prefix_len (fst (kvs ! (i - 1))) (fst (kvs ! i)))
                                   (fst (kvs ! i)) (snd (kvs ! i)))
                         [0..<length kvs])
           \<and> restarts b =
               0 # map (\<lambda>i. entry_offset r kvs i mod 2 ^ 32)
                       (filter (\<lambda>i. i mod r = 0) [1..<length kvs])"
proof -
  have new: "BlockBuilder_new opts = Some (built_block r [])"
    using assms(1,2) by (simp add: BlockBuilder_new_def built_block_def)
  have eq: "map (entry_bytes r kvs) [0..<length kvs]
            = map (\<lambda>i. block_entry
                          (if i mod r = 0 then 0
                           else common_prefix_len (fst (kvs ! (i - 1))) (fst (kvs ! i)))
                          (fst (kvs ! i)) (snd (kvs ! i)))
                  [0..<length kvs]"
    by (intro map_cong refl) (auto simp: entry_bytes_def entry_shared_def)
  have "buffer (built_block r kvs) = concat (map (entry_bytes r kvs) [0..<length kvs])"
    by (simp add: built_block_def)
  then have buf: "buffer (built_block r kvs) =
               concat (map (\<lambda>i. block_entry
                                   (if i mod r = 0 then 0
                                    else common_prefix_len (fst (kvs ! (i - 1))) (fst (kvs ! i)))
                                   (fst (kvs ! i)) (snd (kvs ! i)))
                         [0..<length kvs])"
    unfolding eq .
  have rst: "restarts (built_block r kvs) =
               0 # map (\<lambda>i. entry_offset r kvs i mod 2 ^ 32)
                       (filter (\<lambda>i. i mod r = 0) [1..<length kvs])"
    by (simp add: built_block_def)
  from new Add_all_built_block [OF assms] buf rst show ?thesis by blast
qed

lemma example_block_increasing: "successively (\<lambda>a b. Compare (comparator example_options) b a > 0) (map fst example_block)"
  by (simp add: example_options_def example_block_def BytewiseComparator_def bytewise_Compare_def
      slice_compare_def bytes_of_def)

lemma example_block_offset: "entry_offset 2 example_block 2 = 15"
  by (simp add: entry_offset_def entry_bytes_def entry_shared_def example_block_def block_entry_def
     PutVarint32_def encode_varint.simps bytes_of_def upt_rec)


theorem BlockBuilder_restart_points_witness:
  "(1::nat) \<le> 2 \<and> block_restart_interval example_options = int 2
   \<and> successively (\<lambda>a b. Compare (comparator example_options) b a > 0) (map fst example_block)
   \<and> (\<exists>b0 b. BlockBuilder_new example_options = Some b0
         \<and> Add_all example_options b0 example_block = Some b
         \<and> buffer b = block_entry 0 (bytes_of ''Axl'') (bytes_of ''vv'')
                      @ block_entry 3 (bytes_of ''Axlaa'') (bytes_of ''vv'')
                      @ block_entry 0 (bytes_of ''Axlab'') (bytes_of ''vv'')
                      @ block_entry 3 (bytes_of ''Axlbb'') (bytes_of ''vv'')
         \<and> restarts b = [0, 15])"
proof -
  have h1: "(1::nat) \<le> 2" by simp
  have h2: "block_restart_interval example_options = int 2" by (simp add: example_options_def)
  have len: "length example_block = 4" by (simp add: example_block_def)
  have up: "[0..<4] = [0, 1, 2, 3]" "[1..<4] = [1, 2, 3]" by (simp_all add: upt_rec)
  have kv: "example_block ! 0 = (bytes_of ''Axl'', bytes_of ''vv'')"
    "example_block ! Suc 0 = (bytes_of ''Axlaa'', bytes_of ''vv'')"
    "example_block ! 2 = (bytes_of ''Axlab'', bytes_of ''vv'')"
    "example_block ! 3 = (bytes_of ''Axlbb'', bytes_of ''vv'')"
    by (simp_all add: example_block_def)
  have cp: "common_prefix_len (bytes_of ''Axl'') (bytes_of ''Axlaa'') = 3"
    "common_prefix_len (bytes_of ''Axlab'') (bytes_of ''Axlbb'') = 3"
    by (simp_all add: bytes_of_def)
  from BlockBuilder_restart_points [OF h1 h2 example_block_increasing]
  obtain b0 b where "BlockBuilder_new example_options = Some b0"
    "Add_all example_options b0 example_block = Some b"
    "buffer b = block_entry 0 (bytes_of ''Axl'') (bytes_of ''vv'')
                      @ block_entry 3 (bytes_of ''Axlaa'') (bytes_of ''vv'')
                      @ block_entry 0 (bytes_of ''Axlab'') (bytes_of ''vv'')
                      @ block_entry 3 (bytes_of ''Axlbb'') (bytes_of ''vv'')"
    "restarts b = [0, 15]"
    unfolding len up by (auto simp: kv cp example_block_offset)
  with h1 h2 example_block_increasing show ?thesis by blast
qed



section \<open>Status, files and the environment\<close>

datatype Status =
  OK | NotFound string | Corruption string | InvalidArgument string | IOError string

definition ok :: "Status \<Rightarrow> bool" where
  "ok st = (st = OK)"

text \<open>
  Modelled from the spec: the file abstraction of the outer environment, "sequential append
  with explicit flush" (leveldb/env.h is not among the sources). The file records every
  slice appended to it, in order; \<open>ops_left = Some n\<close> makes the operation after the next
  \<open>n\<close> fail with an \<open>IOError\<close>, and every one after it, and \<open>None\<close> is a file that never fails.
\<close>

record WritableFile =
  appended :: "bytes list"
  ops_left :: "nat option"

definition file_Append :: "WritableFile \<Rightarrow> bytes \<Rightarrow> Status \<times> WritableFile" where
  "file_Append f data =
     (case ops_left f of
        None \<Rightarrow> (OK, f\<lparr> appended := appended f @ [data] \<rparr>)
      | Some 0 \<Rightarrow> (IOError ''append'', f)
      | Some (Suc n) \<Rightarrow> (OK, f\<lparr> appended := appended f @ [data], ops_left := Some n \<rparr>))"

definition file_Flush :: "WritableFile \<Rightarrow> Status \<times> WritableFile" where
  "file_Flush f =
     (case ops_left f of
        None \<Rightarrow> (OK, f)
      | Some 0 \<Rightarrow> (IOError ''flush'', f)
      | Some (Suc n) \<Rightarrow> (OK, f\<lparr> ops_left := Some n \<rparr>))"

definition file_contents :: "WritableFile \<Rightarrow> bytes" where
  "file_contents f = concat (appended f)"

text \<open>
  The functions of util/crc32c.cc and port/port.h that the sources call but do not
  contain are parameters: \<open>crc32c::Extend\<close> and \<open>port::Snappy_Compress\<close> (\<open>None\<close> when
  Snappy is not supported). \<open>crc32c::Value(data, n)\<close> is \<open>Extend(0, data, n)\<close>.
\<close>

record Env =
  crc32c_Extend :: "32 word \<Rightarrow> bytes \<Rightarrow> 32 word"
  Snappy_Compress :: "bytes \<Rightarrow> bytes option"

definition crc32c_Value :: "Env \<Rightarrow> bytes \<Rightarrow> 32 word" where
  "crc32c_Value env data = crc32c_Extend env 0 data"

text \<open>
  Modelled from the spec: \<open>crc32c::Mask\<close>,
  "masked = ((crc >> 15) | (crc << 17)) + 0xA282EAD8 (mod 2^32)".
\<close>

definition crc32c_Mask :: "32 word \<Rightarrow> 32 word" where
  "crc32c_Mask crc = (drop_bit 15 crc OR push_bit 17 crc) + 0xa282ead8"

definition EncodeFixed32 :: "32 word \<Rightarrow> bytes" where
  "EncodeFixed32 w = encode_fixed 4 (unat w)"

section \<open>Block handles and the footer\<close>

text \<open>
  \<open>BlockHandle\<close> (table/format.h): \<open>offset_\<close> and \<open>size_\<close> are \<open>uint64_t\<close>, and a handle
  that was never set holds \<open>~0\<close> in both. \<open>kMaxEncodedLength = 10 + 10\<close>,
  \<open>Footer::kEncodedLength = 2 * kMaxEncodedLength + 8\<close>, \<open>kBlockTrailerSize = 5\<close> and
  \<open>kTableMagicNumber = 0xdb4775248b80fb57\<close> are the constants of that header, which is
  not among the sources; the spec gives the sizes (a 48-byte footer, handles padded to
  40 bytes, an 8-byte magic number, a 5-byte block trailer).
\<close>

record BlockHandle =
  handle_offset :: nat
  handle_size :: nat

definition BlockHandle_new :: BlockHandle where
  "BlockHandle_new = \<lparr> handle_offset = 2 ^ 64 - 1, handle_size = 2 ^ 64 - 1 \<rparr>"

definition kMaxEncodedLength :: nat where
  "kMaxEncodedLength = 20"

definition kEncodedLength :: nat where
  "kEncodedLength = 2 * kMaxEncodedLength + 8"

definition kBlockTrailerSize :: nat where
  "kBlockTrailerSize = 5"

definition kTableMagicNumber :: nat where
  "kTableMagicNumber = 0xdb4775248b80fb57"

definition BlockHandle_EncodeTo :: "bytes \<Rightarrow> BlockHandle \<Rightarrow> bytes option" where
  "BlockHandle_EncodeTo dst h =
     (if \<not> handle_offset h \<noteq> 2 ^ 64 - 1 then None
      else if \<not> handle_size h \<noteq> 2 ^ 64 - 1 then None
      else Some (PutVarint64 (PutVarint64 dst (handle_offset h)) (handle_size h)))"

text \<open>\<open>std::string::resize(n)\<close>: cut to \<open>n\<close> bytes, or padded with zero bytes.\<close>

definition string_resize :: "bytes \<Rightarrow> nat \<Rightarrow> bytes" where
  "string_resize str n = take n str @ replicate (n - length str) 0"

text \<open>
  \<open>void Footer::EncodeTo(std::string* dst) const\<close>, with the two handles of the footer as
  arguments; the result is the new contents of \<open>*dst\<close>.
\<close>

definition Footer_EncodeTo :: "bytes \<Rightarrow> BlockHandle \<Rightarrow> BlockHandle \<Rightarrow> bytes option" where
  "Footer_EncodeTo dst metaindex_handle index_handle =
     (let original_size = length dst in
      case BlockHandle_EncodeTo dst metaindex_handle of
        None \<Rightarrow> None
      | Some dst \<Rightarrow>
          (case BlockHandle_EncodeTo dst index_handle of
             None \<Rightarrow> None
           | Some dst \<Rightarrow>
               (let dst = string_resize dst (2 * kMaxEncodedLength);
                    dst = PutFixed32 dst (kTableMagicNumber mod 2 ^ 32);
                    dst = PutFixed32 dst (kTableMagicNumber div 2 ^ 32)
                in if length dst \<noteq> original_size + kEncodedLength then None
                   else Some dst)))"

section \<open>FilterBlockBuilder\<close>

text \<open>
  Modelled from the spec: \<open>FilterBlockBuilder\<close>, of which only the class declaration is
  among the sources (table/filter_block.cc is not). "For each byte-offset window of size
  \<open>2^base_lg\<close> (default base_lg = 11) in the table's data-block region, a filter is
  computed over all keys added while that window was current. \<open>start_block(block_offset)\<close>
  closes out any elapsed windows by emitting empty filters for each. \<open>add_key(k)\<close> records
  \<open>k\<close>'s offset in a flat key buffer. \<open>finish()\<close> emits
  \<open>filter_data || filter_offsets || offsets_array_offset || base_lg\<close>."
  The flat key buffer \<open>keys_\<close> with its index \<open>start_\<close> is the list of the keys.
\<close>

record FilterBlockBuilder =
  policy :: FilterPolicy
  fb_keys :: "bytes list"
  fb_result :: bytes
  filter_offsets :: "nat list"

definition kFilterBaseLg :: nat where
  "kFilterBaseLg = 11"

definition FilterBlockBuilder_new :: "FilterPolicy \<Rightarrow> FilterBlockBuilder" where
  "FilterBlockBuilder_new p =
     \<lparr> policy = p, fb_keys = [], fb_result = [], filter_offsets = [] \<rparr>"

definition GenerateFilter :: "FilterBlockBuilder \<Rightarrow> FilterBlockBuilder" where
  "GenerateFilter fb =
     (if fb_keys fb = []
      then fb\<lparr> filter_offsets := filter_offsets fb @ [length (fb_result fb) mod 2 ^ 32] \<rparr>
      else fb\<lparr> filter_offsets := filter_offsets fb @ [length (fb_result fb) mod 2 ^ 32],
               fb_result := fb_result fb @ CreateFilter (policy fb) (fb_keys fb),
               fb_keys := [] \<rparr>)"

fun generate_filters :: "nat \<Rightarrow> FilterBlockBuilder \<Rightarrow> FilterBlockBuilder" where
  "generate_filters 0 fb = fb"
| "generate_filters (Suc n) fb = generate_filters n (GenerateFilter fb)"

definition StartBlock :: "FilterBlockBuilder \<Rightarrow> nat \<Rightarrow> FilterBlockBuilder" where
  "StartBlock fb block_offset =
     (let filter_index = block_offset div 2 ^ kFilterBaseLg
      in generate_filters (filter_index - length (filter_offsets fb)) fb)"

definition AddKey :: "FilterBlockBuilder \<Rightarrow> bytes \<Rightarrow> FilterBlockBuilder" where
  "AddKey fb key = fb\<lparr> fb_keys := fb_keys fb @ [key] \<rparr>"

definition FilterBlockBuilder_Finish :: "FilterBlockBuilder \<Rightarrow> bytes \<times> FilterBlockBuilder" where
  "FilterBlockBuilder_Finish fb =
     (let fb = (if fb_keys fb \<noteq> [] then GenerateFilter fb else fb);
          array_offset = length (fb_result fb);
          res = foldl PutFixed32 (fb_result fb) (filter_offsets fb);
          res = PutFixed32 res array_offset;
          res = res @ [of_nat kFilterBaseLg]
      in (res, fb\<lparr> fb_result := res \<rparr>))"


section \<open>TableBuilder\<close>

text \<open>
  \<open>struct TableBuilder::Rep\<close>. The two \<open>BlockBuilder\<close>s hold pointers to \<open>options\<close> and to
  \<open>index_block_options\<close>: every call on \<open>data_block\<close> passes \<open>options r\<close> and every call on
  \<open>index_block\<close> passes \<open>index_block_options r\<close>, as they are at the call. \<open>tb_offset\<close> and
  \<open>tb_file\<close> are the members \<open>offset\<close> and \<open>file\<close>. A failing \<open>assert\<close> is the result \<open>None\<close>.
\<close>

record Rep =
  options :: Options
  index_block_options :: Options
  tb_file :: WritableFile
  tb_offset :: nat
  status :: Status
  data_block :: BlockBuilder
  index_block :: BlockBuilder
  last_key :: bytes
  num_entries :: int
  closed :: bool
  filter_block :: "FilterBlockBuilder option"
  pending_index_entry :: bool
  pending_handle :: BlockHandle
  compressed_output :: bytes

text \<open>
  \<open>Rep::Rep(const Options& opt, WritableFile* f)\<close> followed by the body of
  \<open>TableBuilder::TableBuilder\<close>. Both \<open>BlockBuilder\<close> constructors run in the initialiser
  list, when \<open>index_block_options\<close> is still a copy of \<open>opt\<close>; the constructor body then
  sets its restart interval to 1.
\<close>

definition TableBuilder_new :: "Options \<Rightarrow> WritableFile \<Rightarrow> Rep option" where
  "TableBuilder_new opt f =
     (case BlockBuilder_new opt of
        None \<Rightarrow> None
      | Some data_block0 \<Rightarrow>
          (case BlockBuilder_new opt of
             None \<Rightarrow> None
           | Some index_block0 \<Rightarrow>
               (let r = \<lparr> options = opt,
                          index_block_options = opt,
                          tb_file = f,
                          tb_offset = 0,
                          status = OK,
                          data_block = data_block0,
                          index_block = index_block0,
                          last_key = [],
                          num_entries = 0,
                          closed = False,
                          filter_block =
                            (case filter_policy opt of
                               None \<Rightarrow> None
                             | Some p \<Rightarrow> Some (FilterBlockBuilder_new p)),
                          pending_index_entry = False,
                          pending_handle = BlockHandle_new,
                          compressed_output = [] \<rparr>;
                    r = r\<lparr> index_block_options :=
                             (index_block_options r)\<lparr> block_restart_interval := 1 \<rparr> \<rparr>
                in Some (case filter_block r of
                           None \<Rightarrow> r
                         | Some fb \<Rightarrow> r\<lparr> filter_block := Some (StartBlock fb 0) \<rparr>))))"

definition ChangeOptions :: "Rep \<Rightarrow> Options \<Rightarrow> Status \<times> Rep" where
  "ChangeOptions r opts =
     (if cmp_addr (comparator opts) \<noteq> cmp_addr (comparator (options r))
      then (InvalidArgument ''changing comparator while building table'', r)
      else
        (let r = r\<lparr> options := opts \<rparr>;
             r = r\<lparr> index_block_options := opts \<rparr>;
             r = r\<lparr> index_block_options :=
                      (index_block_options r)\<lparr> block_restart_interval := 1 \<rparr> \<rparr>
         in (OK, r)))"

definition TableBuilder_ok :: "Rep \<Rightarrow> bool" where
  "TableBuilder_ok r = ok (status r)"

text \<open>
  \<open>void TableBuilder::WriteRawBlock(const Slice& block_contents, CompressionType type,
  BlockHandle* handle)\<close>: the handle that is written through the pointer, and the new state.
  The type byte of the trailer is 0 for \<open>kNoCompression\<close> and 1 for \<open>kSnappyCompression\<close>.
\<close>

definition compression_byte :: "CompressionType \<Rightarrow> byte" where
  "compression_byte t = (case t of kNoCompression \<Rightarrow> 0 | kSnappyCompression \<Rightarrow> 1)"

definition block_trailer :: "Env \<Rightarrow> bytes \<Rightarrow> CompressionType \<Rightarrow> bytes" where
  "block_trailer env block_contents t =
     (let crc = crc32c_Value env block_contents;
          crc = crc32c_Extend env crc [compression_byte t]
      in compression_byte t # EncodeFixed32 (crc32c_Mask crc))"

definition WriteRawBlock ::
  "Env \<Rightarrow> Rep \<Rightarrow> bytes \<Rightarrow> CompressionType \<Rightarrow> BlockHandle \<times> Rep" where
  "WriteRawBlock env r block_contents t =
     (let handle = \<lparr> handle_offset = tb_offset r, handle_size = length block_contents \<rparr>;
          (st, f) = file_Append (tb_file r) block_contents;
          r = r\<lparr> status := st, tb_file := f \<rparr>
      in if ok (status r) then
           (let trailer = block_trailer env block_contents t;
                (st, f) = file_Append (tb_file r) trailer;
                r = r\<lparr> status := st, tb_file := f \<rparr>
            in if ok (status r)
               then (handle, r\<lparr> tb_offset := tb_offset r + length block_contents + kBlockTrailerSize \<rparr>)
               else (handle, r))
         else (handle, r))"

text \<open>
  The \<open>switch\<close> of \<open>WriteBlock\<close>: the bytes to store and the type they are stored with.
\<close>

definition compress_block :: "Env \<Rightarrow> CompressionType \<Rightarrow> bytes \<Rightarrow> bytes \<times> CompressionType" where
  "compress_block env t raw =
     (case t of
        kNoCompression \<Rightarrow> (raw, kNoCompression)
      | kSnappyCompression \<Rightarrow>
          (case Snappy_Compress env raw of
             None \<Rightarrow> (raw, kNoCompression)
           | Some compressed \<Rightarrow>
               if length compressed < length raw - length raw div 8
               then (compressed, kSnappyCompression)
               else (raw, kNoCompression)))"

text \<open>
  \<open>void TableBuilder::WriteBlock(BlockBuilder* block, BlockHandle* handle)\<close>: the block
  builder after the call, the handle, and the new state.
\<close>

definition WriteBlock ::
  "Env \<Rightarrow> Rep \<Rightarrow> BlockBuilder \<Rightarrow> (BlockBuilder \<times> BlockHandle \<times> Rep) option" where
  "WriteBlock env r block =
     (if \<not> TableBuilder_ok r then None
      else
        (let (raw, block) = BlockBuilder_Finish block;
             (block_contents, t) = compress_block env (compression (options r)) raw;
             (handle, r) = WriteRawBlock env r block_contents t;
             r = r\<lparr> compressed_output := [] \<rparr>
         in Some (BlockBuilder_Reset block, handle, r)))"

definition Flush :: "Env \<Rightarrow> Rep \<Rightarrow> Rep option" where
  "Flush env r =
     (if \<not> \<not> closed r then None
      else if \<not> TableBuilder_ok r then Some r
      else if BlockBuilder_empty (data_block r) then Some r
      else if \<not> \<not> pending_index_entry r then None
      else
        (case WriteBlock env r (data_block r) of
           None \<Rightarrow> None
         | Some (block, handle, r) \<Rightarrow>
             (let r = r\<lparr> data_block := block, pending_handle := handle \<rparr>;
                  r = (if TableBuilder_ok r
                       then (let (st, f) = file_Flush (tb_file r)
                             in r\<lparr> pending_index_entry := True, status := st, tb_file := f \<rparr>)
                       else r)
              in Some (case filter_block r of
                         None \<Rightarrow> r
                       | Some fb \<Rightarrow> r\<lparr> filter_block := Some (StartBlock fb (tb_offset r)) \<rparr>))))"

text \<open>
  The block of \<open>Add\<close> and of \<open>Finish\<close> that emits the pending index entry, with the key
  that the caller has put into \<open>last_key\<close>.
\<close>

definition emit_index_entry :: "Rep \<Rightarrow> Rep option" where
  "emit_index_entry r =
     (case BlockHandle_EncodeTo [] (pending_handle r) of
        None \<Rightarrow> None
      | Some handle_encoding \<Rightarrow>
          (case BlockBuilder_Add (index_block_options r) (index_block r) (last_key r)
                  handle_encoding of
             None \<Rightarrow> None
           | Some block \<Rightarrow> Some (r\<lparr> index_block := block, pending_index_entry := False \<rparr>)))"

text \<open>
  \<open>void TableBuilder::Add(const Slice& key, const Slice& value)\<close> in three parts: the
  \<open>if (r->pending_index_entry)\<close> block; the key given to the filter block and kept as
  \<open>last_key\<close>, with \<open>num_entries++\<close>; and the \<open>Add\<close> to the data block with the flush
  of a full block.
\<close>

definition add_pending_index_entry :: "Rep \<Rightarrow> bytes \<Rightarrow> Rep option" where
  "add_pending_index_entry r key =
     (if pending_index_entry r
      then (if \<not> BlockBuilder_empty (data_block r) then None
            else emit_index_entry
                   (r\<lparr> last_key :=
                         ShortestSeparator (comparator (options r)) (last_key r) key \<rparr>))
      else Some r)"

definition note_key :: "Rep \<Rightarrow> bytes \<Rightarrow> Rep" where
  "note_key r key =
     (let r = (case filter_block r of
                 None \<Rightarrow> r
               | Some fb \<Rightarrow> r\<lparr> filter_block := Some (AddKey fb key) \<rparr>)
      in r\<lparr> last_key := key, num_entries := num_entries r + 1 \<rparr>)"

definition add_to_data_block :: "Env \<Rightarrow> Rep \<Rightarrow> bytes \<Rightarrow> bytes \<Rightarrow> Rep option" where
  "add_to_data_block env r key val =
     (case BlockBuilder_Add (options r) (data_block r) key val of
        None \<Rightarrow> None
      | Some block \<Rightarrow>
          (let r = r\<lparr> data_block := block \<rparr>;
               estimated_block_size = CurrentSizeEstimate (data_block r)
           in if estimated_block_size \<ge> block_size (options r)
              then Flush env r
              else Some r))"

definition TableBuilder_Add :: "Env \<Rightarrow> Rep \<Rightarrow> bytes \<Rightarrow> bytes \<Rightarrow> Rep option" where
  "TableBuilder_Add env r key val =
     (if \<not> \<not> closed r then None
      else if \<not> TableBuilder_ok r then Some r
      else if num_entries r > 0 \<and> \<not> Compare (comparator (options r)) key (last_key r) > 0
      then None
      else
        (case add_pending_index_entry r key of
           None \<Rightarrow> None
         | Some r \<Rightarrow> add_to_data_block env (note_key r key) key val))"

text \<open>
  \<open>Status TableBuilder::Finish()\<close> in its four steps after the flush; each step is skipped
  when the status is not OK. \<open>metaindex_builder\<close> is the local \<open>meta_index_block\<close> with its
  one entry, and \<open>close_index_block\<close> the \<open>if (r->pending_index_entry)\<close> block of the third
  step. The entry is guarded by \<open>r->filter_block != NULL\<close>, and its key is read from
  \<open>r->options.filter_policy->Name()\<close>, the policy of the options as they are at the call
  (\<open>ChangeOptions\<close> may have replaced it since the filter block was made); the call through
  a \<open>NULL\<close> policy is the result \<open>None\<close>.
\<close>

definition write_filter_block :: "Env \<Rightarrow> Rep \<Rightarrow> BlockHandle \<times> Rep" where
  "write_filter_block env r =
     (case filter_block r of
        Some fb \<Rightarrow>
          if TableBuilder_ok r
          then (let (contents, fb) = FilterBlockBuilder_Finish fb;
                    r = r\<lparr> filter_block := Some fb \<rparr>
                in WriteRawBlock env r contents kNoCompression)
          else (BlockHandle_new, r)
      | None \<Rightarrow> (BlockHandle_new, r))"

definition metaindex_builder :: "Rep \<Rightarrow> BlockHandle \<Rightarrow> BlockBuilder option" where
  "metaindex_builder r filter_block_handle =
     (case BlockBuilder_new (options r) of
        None \<Rightarrow> None
      | Some meta_index_block \<Rightarrow>
          (case filter_block r of
             None \<Rightarrow> Some meta_index_block
           | Some fb \<Rightarrow>
               (case filter_policy (options r) of
                  None \<Rightarrow> None
                | Some p \<Rightarrow>
                    (let key = bytes_of ''filter.'' @ policy_Name p
                     in case BlockHandle_EncodeTo [] filter_block_handle of
                          None \<Rightarrow> None
                        | Some handle_encoding \<Rightarrow>
                            BlockBuilder_Add (options r) meta_index_block key
                              handle_encoding))))"

definition write_metaindex_block ::
  "Env \<Rightarrow> Rep \<Rightarrow> BlockHandle \<Rightarrow> (BlockHandle \<times> Rep) option" where
  "write_metaindex_block env r filter_block_handle =
     (if TableBuilder_ok r then
        (case metaindex_builder r filter_block_handle of
           None \<Rightarrow> None
         | Some meta_index_block \<Rightarrow>
             (case WriteBlock env r meta_index_block of
                None \<Rightarrow> None
              | Some (block, handle, r) \<Rightarrow> Some (handle, r)))
      else Some (BlockHandle_new, r))"

definition close_index_block :: "Rep \<Rightarrow> Rep option" where
  "close_index_block r =
     (if pending_index_entry r
      then emit_index_entry
             (r\<lparr> last_key := ShortSuccessor (comparator (options r)) (last_key r) \<rparr>)
      else Some r)"

definition write_index_block :: "Env \<Rightarrow> Rep \<Rightarrow> (BlockHandle \<times> Rep) option" where
  "write_index_block env r =
     (if TableBuilder_ok r then
        (case close_index_block r of
           None \<Rightarrow> None
         | Some r \<Rightarrow>
             (case WriteBlock env r (index_block r) of
                None \<Rightarrow> None
              | Some (block, handle, r) \<Rightarrow> Some (handle, r\<lparr> index_block := block \<rparr>)))
      else Some (BlockHandle_new, r))"

definition write_footer :: "Rep \<Rightarrow> BlockHandle \<Rightarrow> BlockHandle \<Rightarrow> Rep option" where
  "write_footer r metaindex_block_handle index_block_handle =
     (if TableBuilder_ok r then
        (case Footer_EncodeTo [] metaindex_block_handle index_block_handle of
           None \<Rightarrow> None
         | Some footer_encoding \<Rightarrow>
             (let (st, f) = file_Append (tb_file r) footer_encoding;
                  r = r\<lparr> status := st, tb_file := f \<rparr>
              in Some (if ok (status r)
                       then r\<lparr> tb_offset := tb_offset r + length footer_encoding \<rparr>
                       else r)))
      else Some r)"

definition Finish :: "Env \<Rightarrow> Rep \<Rightarrow> (Status \<times> Rep) option" where
  "Finish env r =
     (case Flush env r of
        None \<Rightarrow> None
      | Some r \<Rightarrow>
          if \<not> \<not> closed r then None
          else
            (let r = r\<lparr> closed := True \<rparr>;
                 (filter_block_handle, r) = write_filter_block env r
             in case write_metaindex_block env r filter_block_handle of
                  None \<Rightarrow> None
                | Some (metaindex_block_handle, r) \<Rightarrow>
                    (case write_index_block env r of
                       None \<Rightarrow> None
                     | Some (index_block_handle, r) \<Rightarrow>
                         (case write_footer r metaindex_block_handle index_block_handle of
                            None \<Rightarrow> None
                          | Some r \<Rightarrow> Some (status r, r)))))"

definition Abandon :: "Rep \<Rightarrow> Rep option" where
  "Abandon r = (if \<not> \<not> closed r then None else Some (r\<lparr> closed := True \<rparr>))"


section \<open>Claim C9: the index block restarts at every entry\<close>

text \<open>
  The states of a \<open>TableBuilder\<close> that its public member functions can produce, from
  any \<open>Options\<close> and any file, with no assertion failing on the way.
\<close>

inductive reachable :: "Env \<Rightarrow> Rep \<Rightarrow> bool" for env :: Env where
  reach_new: "TableBuilder_new opt f = Some r \<Longrightarrow> reachable env r"
| reach_ChangeOptions: "reachable env r \<Longrightarrow> ChangeOptions r opts = (st, r') \<Longrightarrow> reachable env r'"
| reach_Add: "reachable env r \<Longrightarrow> TableBuilder_Add env r key val = Some r' \<Longrightarrow> reachable env r'"
| reach_Flush: "reachable env r \<Longrightarrow> Flush env r = Some r' \<Longrightarrow> reachable env r'"
| reach_Finish: "reachable env r \<Longrightarrow> Finish env r = Some (st, r') \<Longrightarrow> reachable env r'"
| reach_Abandon: "reachable env r \<Longrightarrow> Abandon r = Some r' \<Longrightarrow> reachable env r'"

text \<open>
  The invariant: the restart interval of \<open>index_block_options\<close> is 1, and the index block
  is the block built from some entries with restart interval 1.
\<close>

definition index_inv :: "Rep \<Rightarrow> bool" where
  "index_inv r \<longleftrightarrow>
     block_restart_interval (index_block_options r) = 1 \<and> (\<exists>es. index_block r = built_block 1 es)"

lemma block_entry_not_Nil: "block_entry sh k v \<noteq> []"
  by (simp add: block_entry_def PutVarint32_def encode_varint_not_Nil)

lemma buffer_built_block_Nil: "buffer (built_block r es) = [] \<Longrightarrow> es = []"
proof (rule ccontr)
  assume b: "buffer (built_block r es) = []" and "es \<noteq> []"
  then have "0 < length es" by simp
  then have "[0..<length es] = 0 # [1..<length es]" by (simp add: upt_rec)
  with b show False
    by (simp add: built_block_def entry_bytes_def block_entry_not_Nil)
qed

lemma bb_last_key_built_block:
  "es \<noteq> [] \<Longrightarrow> bb_last_key (built_block r es) = fst (last es)"
  by (simp add: built_block_def)

lemma BlockBuilder_Add_built_block_Some:
  assumes "1 \<le> r" "block_restart_interval opts = int r"
    and "BlockBuilder_Add opts (built_block r es) k v = Some b"
  shows "b = built_block r (es @ [(k, v)])"
proof -
  have c: "buffer (built_block r es) = [] \<or> Compare (comparator opts) k (bb_last_key (built_block r es)) > 0"
    using assms(3) by (auto simp: BlockBuilder_Add_def Let_def split: if_splits)
  have "es = [] \<or> Compare (comparator opts) k (fst (last es)) > 0"
  proof (cases "es = []")
    case True
    then show ?thesis by simp
  next
    case False
    with c buffer_built_block_Nil [of r es] bb_last_key_built_block [of es r]
    show ?thesis by metis
  qed
  from BlockBuilder_Add_built_block [OF assms(1,2) this] assms(3) show ?thesis by simp
qed

lemma index_inv_emit:
  assumes "index_inv r" and "emit_index_entry r = Some r'"
  shows "index_inv r'"
proof -
  from assms(1) obtain es where i1: "block_restart_interval (index_block_options r) = 1"
    and es: "index_block r = built_block 1 es"
    unfolding index_inv_def by blast
  from assms(2) obtain h b where
    b: "BlockBuilder_Add (index_block_options r) (index_block r) (last_key r) h = Some b"
    and r': "r' = r\<lparr> index_block := b, pending_index_entry := False \<rparr>"
    unfolding emit_index_entry_def by (auto split: option.splits)
  have "b = built_block 1 (es @ [(last_key r, h)])"
    using BlockBuilder_Add_built_block_Some [of 1 "index_block_options r" es "last_key r" h b]
      i1 b es by simp
  with i1 r' show ?thesis unfolding index_inv_def by auto
qed


lemma WriteRawBlock_index:
  "WriteRawBlock env r c t = (h, r') \<Longrightarrow>
   index_block r' = index_block r \<and> index_block_options r' = index_block_options r"
  by (auto simp: WriteRawBlock_def Let_def split: prod.splits if_splits)

lemma WriteBlock_index:
  "WriteBlock env r b = Some (b', h, r') \<Longrightarrow>
   index_block r' = index_block r \<and> index_block_options r' = index_block_options r"
  by (auto simp: WriteBlock_def Let_def split: prod.splits if_splits dest!: WriteRawBlock_index)

lemma Flush_index:
  "Flush env r = Some r' \<Longrightarrow>
   index_block r' = index_block r \<and> index_block_options r' = index_block_options r"
  by (auto simp: Flush_def Let_def split: prod.splits if_splits option.splits
      dest!: WriteBlock_index)

lemma index_inv_cong:
  "index_block r' = index_block r \<and> index_block_options r' = index_block_options r \<Longrightarrow>
   index_inv r \<Longrightarrow> index_inv r'"
  by (simp add: index_inv_def)

lemma index_inv_new: "TableBuilder_new opt f = Some r \<Longrightarrow> index_inv r"
proof -
  assume a: "TableBuilder_new opt f = Some r"
  have fresh: "BlockBuilder_new opt = Some b \<Longrightarrow> b = built_block 1 []" for b
    by (auto simp: BlockBuilder_new_def built_block_def split: if_splits)
  from a show ?thesis
    unfolding TableBuilder_new_def index_inv_def
    by (auto simp: Let_def split: option.splits dest!: fresh)
qed

lemma index_inv_ChangeOptions: "index_inv r \<Longrightarrow> ChangeOptions r opts = (st, r') \<Longrightarrow> index_inv r'"
  by (auto simp: ChangeOptions_def index_inv_def Let_def split: if_splits)

lemma index_inv_Flush: "index_inv r \<Longrightarrow> Flush env r = Some r' \<Longrightarrow> index_inv r'"
  using Flush_index index_inv_cong by blast


lemma index_inv_updates [simp]:
  "index_inv (r\<lparr> last_key := k \<rparr>) = index_inv r"
  "index_inv (r\<lparr> num_entries := n \<rparr>) = index_inv r"
  "index_inv (r\<lparr> filter_block := fb \<rparr>) = index_inv r"
  "index_inv (r\<lparr> data_block := b \<rparr>) = index_inv r"
  "index_inv (r\<lparr> closed := c \<rparr>) = index_inv r"
  "index_inv (r\<lparr> status := st \<rparr>) = index_inv r"
  "index_inv (r\<lparr> tb_file := f \<rparr>) = index_inv r"
  "index_inv (r\<lparr> tb_offset := off \<rparr>) = index_inv r"
  by (simp_all add: index_inv_def)

lemma index_inv_add_pending:
  "index_inv r \<Longrightarrow> add_pending_index_entry r key = Some r' \<Longrightarrow> index_inv r'"
  unfolding add_pending_index_entry_def
  by (auto split: if_splits dest: index_inv_emit [rotated])

lemma index_inv_note_key [simp]: "index_inv (note_key r key) = index_inv r"
  by (simp add: note_key_def Let_def split: option.splits)

lemma index_inv_add_to_data_block:
  assumes "index_inv r" and "add_to_data_block env r key val = Some r'"
  shows "index_inv r'"
proof -
  from assms(2) obtain block where
    r': "(if CurrentSizeEstimate block \<ge> block_size (options r)
          then Flush env (r\<lparr> data_block := block \<rparr>)
          else Some (r\<lparr> data_block := block \<rparr>)) = Some r'"
    unfolding add_to_data_block_def Let_def
    by (cases "BlockBuilder_Add (options r) (data_block r) key val") auto
  show ?thesis
  proof (cases "CurrentSizeEstimate block \<ge> block_size (options r)")
    case True
    with r' have "Flush env (r\<lparr> data_block := block \<rparr>) = Some r'" by simp
    from index_inv_Flush [OF _ this] assms(1) show ?thesis by simp
  next
    case False
    with r' assms(1) show ?thesis by auto
  qed
qed

lemma index_inv_Add:
  assumes inv: "index_inv r" and add: "TableBuilder_Add env r key val = Some r'"
  shows "index_inv r'"
proof (cases "TableBuilder_ok r")
  case False
  with add have "r' = r"
    by (simp add: TableBuilder_Add_def split: if_splits)
  with inv show ?thesis by simp
next
  case True
  with add obtain r1 where "add_pending_index_entry r key = Some r1"
    and "add_to_data_block env (note_key r1 key) key val = Some r'"
    unfolding TableBuilder_Add_def by (auto split: if_splits option.splits)
  with inv index_inv_add_pending [of r key r1]
    index_inv_add_to_data_block [of "note_key r1 key" env key val r']
  show ?thesis by simp
qed


lemma BlockBuilder_Reset_fresh: "BlockBuilder_Reset b = built_block 1 []"
  by (simp add: BlockBuilder_Reset_def built_block_def)

lemma WriteBlock_fresh: "WriteBlock env r b = Some (b', h, r') \<Longrightarrow> b' = built_block 1 []"
  by (auto simp: WriteBlock_def Let_def BlockBuilder_Reset_fresh split: prod.splits if_splits)

lemma index_inv_write_filter_block:
  "index_inv r \<Longrightarrow> write_filter_block env r = (h, r') \<Longrightarrow> index_inv r'"
  unfolding write_filter_block_def
  by (auto simp: Let_def split: option.splits if_splits prod.splits
      dest!: WriteRawBlock_index intro: index_inv_cong [rotated])

lemma index_inv_write_metaindex_block:
  assumes "index_inv r" and "write_metaindex_block env r fh = Some (h, r')"
  shows "index_inv r'"
proof (cases "TableBuilder_ok r")
  case False
  with assms show ?thesis by (simp add: write_metaindex_block_def)
next
  case True
  with assms(2) obtain mb b' where "WriteBlock env r mb = Some (b', h, r')"
    unfolding write_metaindex_block_def by (auto split: option.splits)
  from WriteBlock_index [OF this] assms(1) show ?thesis
    using index_inv_cong by blast
qed

lemma index_inv_close_index_block:
  "index_inv r \<Longrightarrow> close_index_block r = Some r' \<Longrightarrow> index_inv r'"
  unfolding close_index_block_def
  by (auto split: if_splits dest: index_inv_emit [rotated])

lemma index_inv_write_index_block:
  assumes "index_inv r" and "write_index_block env r = Some (h, r')"
  shows "index_inv r'"
proof (cases "TableBuilder_ok r")
  case False
  with assms show ?thesis by (simp add: write_index_block_def)
next
  case True
  with assms(2) obtain r1 b' r2 where
    r1: "close_index_block r = Some r1"
    and wb: "WriteBlock env r1 (index_block r1) = Some (b', h, r2)"
    and r': "r' = r2\<lparr> index_block := b' \<rparr>"
    unfolding write_index_block_def by (auto split: option.splits)
  have "index_inv r1"
    using index_inv_close_index_block [OF assms(1) r1] .
  moreover from WriteBlock_index [OF wb] have "index_block_options r2 = index_block_options r1"
    by simp
  moreover from WriteBlock_fresh [OF wb] have "b' = built_block 1 []" .
  ultimately show ?thesis
    unfolding r' index_inv_def by auto
qed

lemma index_inv_write_footer:
  "index_inv r \<Longrightarrow> write_footer r mh ih = Some r' \<Longrightarrow> index_inv r'"
  unfolding write_footer_def
  by (auto simp: Let_def split: option.splits if_splits prod.splits)

lemma index_inv_Finish:
  assumes "index_inv r" and "Finish env r = Some (st, r')"
  shows "index_inv r'"
proof -
  from assms(2) obtain r1 where r1: "Flush env r = Some r1"
    unfolding Finish_def by (auto split: option.splits)
  obtain fh r2 where r2: "write_filter_block env (r1\<lparr> closed := True \<rparr>) = (fh, r2)"
    by (cases "write_filter_block env (r1\<lparr> closed := True \<rparr>)")
  from assms(2) r1 r2 obtain mh r3 ih r4 where
    r3: "write_metaindex_block env r2 fh = Some (mh, r3)"
    and r4: "write_index_block env r3 = Some (ih, r4)"
    and r5: "write_footer r4 mh ih = Some r'"
    unfolding Finish_def by (auto simp: Let_def split: option.splits if_splits)
  from assms(1) r1 have "index_inv (r1\<lparr> closed := True \<rparr>)"
    using index_inv_Flush by simp
  with r2 have "index_inv r2" using index_inv_write_filter_block by blast
  with r3 have "index_inv r3" using index_inv_write_metaindex_block by blast
  with r4 have "index_inv r4" using index_inv_write_index_block by blast
  with r5 show ?thesis using index_inv_write_footer by blast
qed

lemma index_inv_Abandon: "index_inv r \<Longrightarrow> Abandon r = Some r' \<Longrightarrow> index_inv r'"
  by (auto simp: Abandon_def split: if_splits)

lemma reachable_index_inv: "reachable env r \<Longrightarrow> index_inv r"
proof (induction rule: reachable.induct)
  case (reach_new opt f r)
  then show ?case by (rule index_inv_new)
next
  case (reach_ChangeOptions r opts st r')
  then show ?case using index_inv_ChangeOptions by blast
next
  case (reach_Add r key val r')
  then show ?case using index_inv_Add by blast
next
  case (reach_Flush r r')
  then show ?case using index_inv_Flush by blast
next
  case (reach_Finish r st r')
  then show ?case using index_inv_Finish by blast
next
  case (reach_Abandon r r')
  then show ?case using index_inv_Abandon by blast
qed


lemma buffer_built_block_1:
  "buffer (built_block 1 es) = concat (map (\<lambda>(k, h). block_entry 0 k h) es)"
proof -
  have "map (entry_bytes 1 es) [0..<length es] = map (\<lambda>i. (\<lambda>(k, h). block_entry 0 k h) (es ! i)) [0..<length es]"
    by (intro map_cong refl) (simp add: entry_bytes_def entry_shared_def split_beta)
  also have "\<dots> = map (\<lambda>(k, h). block_entry 0 k h) es"
    using map_nth [of es] map_map [of "\<lambda>(k, h). block_entry 0 k h" "(!) es" "[0..<length es]"]
    by (simp add: comp_def)
  finally show ?thesis by (simp add: built_block_def)
qed

text \<open>
  An environment and a file for the examples: a stand-in checksum, no Snappy support, and
  an empty file that never fails.
\<close>

definition example_env :: Env where
  "example_env =
     \<lparr> crc32c_Extend = (\<lambda>crc data. crc + of_nat (length data)),
       Snappy_Compress = (\<lambda>raw. None) \<rparr>"

definition empty_file :: WritableFile where
  "empty_file = \<lparr> appended = [], ops_left = None \<rparr>"

definition example_builder :: Rep where
  "example_builder =
     snd (ChangeOptions (the (TableBuilder_new example_options empty_file))
            (example_options\<lparr> block_restart_interval := 7 \<rparr>))"

text \<open>
  C9. In every reachable state of a \<open>TableBuilder\<close>, whatever restart interval the
  \<open>Options\<close> given to the constructor or to \<open>ChangeOptions\<close> had, the restart interval of
  \<open>index_block_options\<close> is 1; the index block holds entries stored with \<open>shared = 0\<close>
  only; and every \<open>Add\<close> to the index block stores its entry with \<open>shared = 0\<close> and has
  the entry's offset in the restart array.
\<close>

theorem index_block_restart_interval_forced:
  assumes "reachable env r"
  shows "block_restart_interval (index_block_options r) = 1
       \<and> (\<exists>es. buffer (index_block r) = concat (map (\<lambda>(k, h). block_entry 0 k h) es))
       \<and> (\<forall>key h b'.
             BlockBuilder_Add (index_block_options r) (index_block r) key h = Some b' \<longrightarrow>
               buffer b' = buffer (index_block r) @ block_entry 0 key h
             \<and> length (buffer (index_block r)) mod 2 ^ 32 \<in> set (restarts b'))"
proof -
  from reachable_index_inv [OF assms] obtain es where
    i1: "block_restart_interval (index_block_options r) = 1"
    and es: "index_block r = built_block 1 es"
    unfolding index_inv_def by blast
  have add: "buffer b' = buffer (index_block r) @ block_entry 0 key h
             \<and> length (buffer (index_block r)) mod 2 ^ 32 \<in> set (restarts b')"
    if a: "BlockBuilder_Add (index_block_options r) (index_block r) key h = Some b'"
    for key h b'
  proof -
    let ?b = "index_block r" and ?o = "index_block_options r"
    from a have a1: "\<not> finished ?b" and a2: "counter ?b \<le> block_restart_interval ?o"
      and a3: "buffer ?b = [] \<or> Compare (comparator ?o) key (bb_last_key ?b) > 0"
      by (auto simp: BlockBuilder_Add_def Let_def split: if_splits)
    note step = BlockBuilder_Add_step [OF a1 a2 a3, of h]
    show ?thesis
    proof (cases "es = []")
      case True
      then have "counter ?b = 0" "bb_last_key ?b = []" "buffer ?b = []" "restarts ?b = [0]"
        by (simp_all add: es built_block_def)
      with step a i1 show ?thesis by auto
    next
      case False
      then have "counter ?b = 1"
        by (simp add: es built_block_def)
      with step a i1 show ?thesis by auto
    qed
  qed
  from i1 es buffer_built_block_1 [of es] add show ?thesis by auto
qed

theorem index_block_restart_interval_forced_witness:
  "reachable example_env example_builder
   \<and> block_restart_interval (options example_builder) = 7
   \<and> block_restart_interval (index_block_options example_builder) = 1"
proof -
  obtain r0 where r0: "TableBuilder_new example_options empty_file = Some r0"
    by (simp add: TableBuilder_new_def BlockBuilder_new_def example_options_def Let_def)
  have eb: "ChangeOptions r0 (example_options\<lparr> block_restart_interval := 7 \<rparr>) = (OK, example_builder)"
    using r0
    by (auto simp: example_builder_def ChangeOptions_def TableBuilder_new_def BlockBuilder_new_def
        example_options_def Let_def)
  have reach: "reachable example_env example_builder"
    using reach_ChangeOptions [OF reach_new [OF r0] eb] .
  have ex: "example_builder = r0\<lparr> options := example_options\<lparr> block_restart_interval := 7 \<rparr>,
           index_block_options := example_options\<lparr> block_restart_interval := 1 \<rparr> \<rparr>"
    using eb by (auto simp: ChangeOptions_def Let_def split: if_splits)
  have "block_restart_interval (options example_builder) = 7"
    by (subst ex) simp
  with reach index_block_restart_interval_forced [OF reach] show ?thesis by simp
qed



section \<open>Claim C4: what \<open>Finish\<close> writes\<close>

text \<open>A builder whose status is OK and whose file never fails.\<close>

definition healthy :: "Rep \<Rightarrow> bool" where
  "healthy r \<longleftrightarrow> status r = OK \<and> ops_left (tb_file r) = None"

text \<open>
  The spec's words for what \<open>Finish\<close> writes: a block handle is "\<open>(offset, size)\<close> pair,
  each varint64"; the footer is "two encoded locations (metaindex, index) padded to 40
  bytes followed by an 8-byte little-endian magic number"; a block is written as its
  (possibly compressed) contents followed by the 5-byte trailer.
\<close>

definition handle_encoding :: "BlockHandle \<Rightarrow> bytes" where
  "handle_encoding h = PutVarint64 (PutVarint64 [] (handle_offset h)) (handle_size h)"

definition footer_bytes :: "BlockHandle \<Rightarrow> BlockHandle \<Rightarrow> bytes" where
  "footer_bytes mh ih =
     string_resize (handle_encoding mh @ handle_encoding ih) 40 @ encode_fixed 8 kTableMagicNumber"

definition written_block :: "Env \<Rightarrow> Options \<Rightarrow> BlockBuilder \<Rightarrow> bytes list" where
  "written_block env opts b =
     (let (contents, t) = compress_block env (compression opts) (fst (BlockBuilder_Finish b))
      in [contents, block_trailer env contents t])"

lemma file_Append_never_fails:
  "ops_left f = None \<Longrightarrow> file_Append f d = (OK, f\<lparr> appended := appended f @ [d] \<rparr>)"
  by (simp add: file_Append_def)

lemma length_block_trailer [simp]: "length (block_trailer env c t) = 5"
  by (simp add: block_trailer_def Let_def EncodeFixed32_def)

lemma WriteRawBlock_healthy:
  assumes "ops_left (tb_file r) = None"
  shows "WriteRawBlock env r c t =
     (\<lparr> handle_offset = tb_offset r, handle_size = length c \<rparr>,
      r\<lparr> status := OK,
         tb_file := (tb_file r)\<lparr> appended := appended (tb_file r) @ [c, block_trailer env c t] \<rparr>,
         tb_offset := tb_offset r + length c + 5 \<rparr>)"
  using assms
  by (simp add: WriteRawBlock_def file_Append_never_fails Let_def ok_def kBlockTrailerSize_def)

lemma WriteBlock_healthy:
  assumes "healthy r"
  shows "WriteBlock env r b =
     Some (built_block 1 [],
           \<lparr> handle_offset = tb_offset r,
             handle_size = length (hd (written_block env (options r) b)) \<rparr>,
           r\<lparr> status := OK,
              tb_file := (tb_file r)\<lparr> appended := appended (tb_file r)
                                           @ written_block env (options r) b \<rparr>,
              tb_offset := tb_offset r + length (concat (written_block env (options r) b)),
              compressed_output := [] \<rparr>)"
proof -
  from assms have h: "status r = OK" "ops_left (tb_file r) = None"
    by (simp_all add: healthy_def)
  obtain raw b1 where f: "BlockBuilder_Finish b = (raw, b1)" by (cases "BlockBuilder_Finish b")
  obtain c t where c: "compress_block env (compression (options r)) raw = (c, t)"
    by (cases "compress_block env (compression (options r)) raw")
  show ?thesis
    using h f c
    by (simp add: WriteBlock_def TableBuilder_ok_def ok_def WriteRawBlock_healthy
        written_block_def BlockBuilder_Reset_fresh)
qed


lemma healthy_updates [simp]:
  "healthy (r\<lparr> closed := c \<rparr>) = healthy r"
  "healthy (r\<lparr> filter_block := fb \<rparr>) = healthy r"
  "healthy (r\<lparr> data_block := b \<rparr>) = healthy r"
  "healthy (r\<lparr> index_block := b \<rparr>) = healthy r"
  "healthy (r\<lparr> pending_handle := h \<rparr>) = healthy r"
  "healthy (r\<lparr> pending_index_entry := p \<rparr>) = healthy r"
  "healthy (r\<lparr> last_key := k \<rparr>) = healthy r"
  "healthy (r\<lparr> tb_offset := n \<rparr>) = healthy r"
  "healthy (r\<lparr> compressed_output := x \<rparr>) = healthy r"
  by (simp_all add: healthy_def)

lemma Flush_healthy:
  assumes "healthy r" and "Flush env r = Some r1"
  shows "healthy r1"
proof -
  from assms(1) have h: "status r = OK" "ops_left (tb_file r) = None"
    by (simp_all add: healthy_def)
  show ?thesis
  proof (cases "BlockBuilder_empty (data_block r)")
    case True
    with assms h have "r1 = r"
      by (simp add: Flush_def TableBuilder_ok_def ok_def split: if_splits)
    with assms(1) show ?thesis by simp
  next
    case False
    with assms h show ?thesis
      by (auto simp: Flush_def TableBuilder_ok_def ok_def WriteBlock_healthy [OF assms(1)]
          file_Flush_def healthy_def Let_def split: if_splits option.splits)
  qed
qed

lemma write_filter_block_healthy:
  assumes "healthy r"
  shows "write_filter_block env r =
     (case filter_block r of
        None \<Rightarrow> (BlockHandle_new, r)
      | Some fb \<Rightarrow>
          (\<lparr> handle_offset = tb_offset r,
             handle_size = length (fst (FilterBlockBuilder_Finish fb)) \<rparr>,
           r\<lparr> filter_block := Some (snd (FilterBlockBuilder_Finish fb)),
              status := OK,
              tb_file := (tb_file r)\<lparr> appended := appended (tb_file r)
                  @ [fst (FilterBlockBuilder_Finish fb),
                     block_trailer env (fst (FilterBlockBuilder_Finish fb)) kNoCompression] \<rparr>,
              tb_offset := tb_offset r + length (fst (FilterBlockBuilder_Finish fb)) + 5 \<rparr>))"
proof -
  from assms have h: "status r = OK" "ops_left (tb_file r) = None"
    by (simp_all add: healthy_def)
  show ?thesis
    using h
    by (simp add: write_filter_block_def TableBuilder_ok_def ok_def WriteRawBlock_healthy
        split_beta Let_def split: option.splits)
qed

lemma built_block_single: "1 \<le> r \<Longrightarrow> built_block r [kv] = built_block 1 [kv]"
  by (simp add: built_block_def entry_bytes_def entry_shared_def entry_offset_def)

lemma BlockBuilder_new_Some: "BlockBuilder_new opts = Some b \<Longrightarrow>
   1 \<le> block_restart_interval opts \<and> b = built_block 1 []"
  by (auto simp: BlockBuilder_new_def built_block_def split: if_splits)

lemma Add_fresh_block:
  assumes "1 \<le> block_restart_interval opts"
    and "BlockBuilder_Add opts (built_block 1 []) k v = Some b"
  shows "b = built_block 1 [(k, v)]"
proof -
  define r where "r = nat (block_restart_interval opts)"
  have r: "1 \<le> r" "block_restart_interval opts = int r"
    using assms(1) by (simp_all add: r_def)
  have "built_block 1 [] = built_block r []" by (simp add: built_block_def)
  with assms(2) have "BlockBuilder_Add opts (built_block r []) k v = Some b" by simp
  from BlockBuilder_Add_built_block_Some [OF r this] built_block_single [OF r(1)]
  show ?thesis by simp
qed


lemma BlockHandle_EncodeTo_Some:
  "BlockHandle_EncodeTo d h = Some e \<Longrightarrow> e = d @ handle_encoding h"
  by (auto simp: BlockHandle_EncodeTo_def handle_encoding_def PutVarint64_def split: if_splits)

lemma metaindex_builder_Some:
  assumes "metaindex_builder r fh = Some mb"
  shows "(case filter_block r of
            None \<Rightarrow> mb = built_block 1 []
          | Some fb \<Rightarrow> (\<exists>p. filter_policy (options r) = Some p \<and> mb = built_block 1
               [(bytes_of ''filter.'' @ policy_Name p, handle_encoding fh)]))"
proof -
  from assms obtain b0 where b0: "BlockBuilder_new (options r) = Some b0"
    unfolding metaindex_builder_def by (auto split: option.splits)
  from BlockBuilder_new_Some [OF b0] have i: "1 \<le> block_restart_interval (options r)"
    and fresh: "b0 = built_block 1 []" by simp_all
  show ?thesis
  proof (cases "filter_block r")
    case None
    with assms b0 fresh show ?thesis by (simp add: metaindex_builder_def)
  next
    case (Some fb)
    with assms b0 obtain p e where p: "filter_policy (options r) = Some p"
      and e: "BlockHandle_EncodeTo [] fh = Some e"
      and a: "BlockBuilder_Add (options r) b0 (bytes_of ''filter.'' @ policy_Name p) e = Some mb"
      by (auto simp: metaindex_builder_def Let_def split: option.splits)
    from Add_fresh_block [OF i a [unfolded fresh]] BlockHandle_EncodeTo_Some [OF e] Some p
    show ?thesis by simp
  qed
qed

lemma write_metaindex_block_healthy:
  assumes h: "healthy r" and w: "write_metaindex_block env r fh = Some (mh, r')"
  shows "\<exists>mb. metaindex_builder r fh = Some mb
            \<and> mh = \<lparr> handle_offset = tb_offset r,
                      handle_size = length (hd (written_block env (options r) mb)) \<rparr>
            \<and> healthy r'
            \<and> appended (tb_file r') = appended (tb_file r) @ written_block env (options r) mb
            \<and> tb_offset r' = tb_offset r + length (concat (written_block env (options r) mb))
            \<and> options r' = options r \<and> index_block_options r' = index_block_options r
            \<and> index_block r' = index_block r \<and> pending_index_entry r' = pending_index_entry r
            \<and> last_key r' = last_key r \<and> pending_handle r' = pending_handle r"
proof -
  from h have okr: "TableBuilder_ok r" by (simp add: healthy_def TableBuilder_ok_def ok_def)
  from w okr obtain mb b' where mb: "metaindex_builder r fh = Some mb"
    and wb: "WriteBlock env r mb = Some (b', mh, r')"
    unfolding write_metaindex_block_def by (auto split: option.splits)
  from wb mb h show ?thesis
    unfolding WriteBlock_healthy [OF h]
    by (intro exI [of _ mb]) (auto simp: healthy_def)
qed

lemma close_index_block_Some:
  assumes "close_index_block r = Some r1"
  shows "status r1 = status r \<and> tb_offset r1 = tb_offset r \<and> tb_file r1 = tb_file r
        \<and> options r1 = options r
        \<and> (if pending_index_entry r
               then BlockBuilder_Add (index_block_options r) (index_block r)
                      (ShortSuccessor (comparator (options r)) (last_key r))
                      (handle_encoding (pending_handle r)) = Some (index_block r1)
               else index_block r1 = index_block r)"
proof (cases "pending_index_entry r")
  case False
  with assms show ?thesis by (simp add: close_index_block_def)
next
  case True
  with assms have e: "emit_index_entry
      (r\<lparr> last_key := ShortSuccessor (comparator (options r)) (last_key r) \<rparr>) = Some r1"
    by (simp add: close_index_block_def)
  then obtain enc where enc: "BlockHandle_EncodeTo [] (pending_handle r) = Some enc"
    unfolding emit_index_entry_def by (auto split: option.splits)
  from BlockHandle_EncodeTo_Some [OF enc] e enc True show ?thesis
    unfolding emit_index_entry_def by (auto split: option.splits)
qed

lemma write_index_block_healthy:
  assumes h: "healthy r" and w: "write_index_block env r = Some (ih, r')"
  shows "\<exists>ib. (if pending_index_entry r
               then BlockBuilder_Add (index_block_options r) (index_block r)
                      (ShortSuccessor (comparator (options r)) (last_key r))
                      (handle_encoding (pending_handle r)) = Some ib
               else ib = index_block r)
            \<and> ih = \<lparr> handle_offset = tb_offset r,
                      handle_size = length (hd (written_block env (options r) ib)) \<rparr>
            \<and> healthy r'
            \<and> appended (tb_file r') = appended (tb_file r) @ written_block env (options r) ib
            \<and> tb_offset r' = tb_offset r + length (concat (written_block env (options r) ib))"
proof -
  from h have okr: "TableBuilder_ok r" by (simp add: healthy_def TableBuilder_ok_def ok_def)
  from w okr obtain r1 b' r2 where r1: "close_index_block r = Some r1"
    and wb: "WriteBlock env r1 (index_block r1) = Some (b', ih, r2)"
    and r': "r' = r2\<lparr> index_block := b' \<rparr>"
    unfolding write_index_block_def by (auto split: option.splits)
  note p = close_index_block_Some [OF r1]
  with h have h1: "healthy r1" by (simp add: healthy_def)
  from h have nf: "ops_left (tb_file r) = None" by (simp add: healthy_def)
  from wb r' p nf show ?thesis
    unfolding WriteBlock_healthy [OF h1]
    by (intro exI [of _ "index_block r1"]) (auto simp: healthy_def)
qed

lemma encode_fixed_numeral:
  "encode_fixed (numeral k) v = of_nat (v mod 256) # encode_fixed (pred_numeral k) (v div 256)"
proof -
  have "numeral k = Suc (pred_numeral k)" by (rule numeral_eq_Suc)
  then show ?thesis by (simp only: encode_fixed.simps)
qed

lemma magic_bytes:
  "PutFixed32 (PutFixed32 d (kTableMagicNumber mod 2 ^ 32)) (kTableMagicNumber div 2 ^ 32)
     = d @ encode_fixed 8 kTableMagicNumber"
  by (simp add: PutFixed32_def kTableMagicNumber_def encode_fixed_numeral)

lemma length_string_resize [simp]: "length (string_resize str n) = n"
  by (simp add: string_resize_def)

lemma length_footer_bytes: "length (footer_bytes mh ih) = 48"
  by (simp add: footer_bytes_def)

lemma Footer_EncodeTo_Some:
  assumes "Footer_EncodeTo [] mh ih = Some enc"
  shows "enc = footer_bytes mh ih"
proof -
  from assms obtain e1 e2 where e1: "BlockHandle_EncodeTo [] mh = Some e1"
    and e2: "BlockHandle_EncodeTo e1 ih = Some e2"
    unfolding Footer_EncodeTo_def by (auto simp: Let_def split: option.splits)
  from BlockHandle_EncodeTo_Some [OF e1] BlockHandle_EncodeTo_Some [OF e2]
  have e2': "e2 = handle_encoding mh @ handle_encoding ih" by simp
  from assms e1 e2 have "enc = string_resize e2 40 @ encode_fixed 8 kTableMagicNumber"
    unfolding Footer_EncodeTo_def Let_def magic_bytes
    by (auto simp: kEncodedLength_def kMaxEncodedLength_def split: if_splits)
  with e2' show ?thesis by (simp add: footer_bytes_def)
qed

lemma write_footer_healthy:
  assumes h: "healthy r" and w: "write_footer r mh ih = Some r'"
  shows "status r' = OK \<and> appended (tb_file r') = appended (tb_file r) @ [footer_bytes mh ih]"
proof -
  from h have okr: "TableBuilder_ok r" and nf: "ops_left (tb_file r) = None"
    by (simp_all add: healthy_def TableBuilder_ok_def ok_def)
  from w okr obtain enc where enc: "Footer_EncodeTo [] mh ih = Some enc"
    unfolding write_footer_def by (auto split: option.splits)
  note e = Footer_EncodeTo_Some [OF enc]
  from w okr enc nf have "r' = r\<lparr> status := OK,
        tb_file := (tb_file r)\<lparr> appended := appended (tb_file r) @ [enc] \<rparr>,
        tb_offset := tb_offset r + length enc \<rparr>"
    unfolding write_footer_def
    by (simp add: file_Append_never_fails ok_def)
  with e show ?thesis by simp
qed


lemma policy_FilterBlockBuilder_Finish [simp]:
  "policy (snd (FilterBlockBuilder_Finish fb)) = policy fb"
  by (simp add: FilterBlockBuilder_Finish_def GenerateFilter_def Let_def)

lemma Finish_layout:
  assumes h: "status r = OK" "ops_left (tb_file r) = None"
    and fl: "Flush env r = Some r1"
    and fin: "Finish env r = Some (st, r')"
  shows "st = OK \<and> (\<exists>fchunks mb ib mh ih.
       appended (tb_file r') =
         appended (tb_file r1) @ fchunks @ written_block env (options r1) mb
           @ written_block env (options r1) ib @ [footer_bytes mh ih]
     \<and> (case filter_block r1 of
          None \<Rightarrow> fchunks = [] \<and> mb = built_block 1 []
        | Some fb \<Rightarrow>
            fchunks = [fst (FilterBlockBuilder_Finish fb),
                       block_trailer env (fst (FilterBlockBuilder_Finish fb)) kNoCompression]
          \<and> (\<exists>p. filter_policy (options r1) = Some p
               \<and> mb = built_block 1
                 [(bytes_of ''filter.'' @ policy_Name p,
                   handle_encoding \<lparr> handle_offset = tb_offset r1,
                                     handle_size = length (fst (FilterBlockBuilder_Finish fb)) \<rparr>)]))
     \<and> (if pending_index_entry r1
         then BlockBuilder_Add (index_block_options r1) (index_block r1)
                (ShortSuccessor (comparator (options r1)) (last_key r1))
                (handle_encoding (pending_handle r1)) = Some ib
         else ib = index_block r1)
     \<and> mh = \<lparr> handle_offset = tb_offset r1 + length (concat fchunks),
               handle_size = length (hd (written_block env (options r1) mb)) \<rparr>
     \<and> ih = \<lparr> handle_offset = handle_offset mh + length (concat (written_block env (options r1) mb)),
               handle_size = length (hd (written_block env (options r1) ib)) \<rparr>
     \<and> length (footer_bytes mh ih) = 48)"
proof -
  from h have hr: "healthy r" by (simp add: healthy_def)
  from Flush_healthy [OF hr fl] have h1: "healthy r1" .
  let ?r1c = "r1\<lparr> closed := True \<rparr>"
  have h1c: "healthy ?r1c" using h1 by simp
  obtain fh r2 where wf: "write_filter_block env ?r1c = (fh, r2)"
    by (cases "write_filter_block env ?r1c")
  from fin fl wf obtain mh r3 ih r4 where
    wm: "write_metaindex_block env r2 fh = Some (mh, r3)"
    and wi: "write_index_block env r3 = Some (ih, r4)"
    and wfo: "write_footer r4 mh ih = Some r'" and st: "st = status r'"
    unfolding Finish_def
    by (auto simp: Let_def split: option.splits if_splits)
  define fchunks where "fchunks = (case filter_block r1 of None \<Rightarrow> []
        | Some fb \<Rightarrow> [fst (FilterBlockBuilder_Finish fb),
                       block_trailer env (fst (FilterBlockBuilder_Finish fb)) kNoCompression])"
  have r2: "healthy r2 \<and> appended (tb_file r2) = appended (tb_file r1) @ fchunks
        \<and> tb_offset r2 = tb_offset r1 + length (concat fchunks)
        \<and> options r2 = options r1 \<and> index_block_options r2 = index_block_options r1
        \<and> index_block r2 = index_block r1 \<and> pending_index_entry r2 = pending_index_entry r1
        \<and> last_key r2 = last_key r1 \<and> pending_handle r2 = pending_handle r1
        \<and> (case filter_block r1 of None \<Rightarrow> filter_block r2 = None
            | Some fb \<Rightarrow> (\<exists>fb'. filter_block r2 = Some fb' \<and> policy fb' = policy fb)
                \<and> fh = \<lparr> handle_offset = tb_offset r1,
                           handle_size = length (fst (FilterBlockBuilder_Finish fb)) \<rparr>)"
    using wf h1c unfolding write_filter_block_healthy [OF h1c] fchunks_def
    by (auto simp: healthy_def split: option.splits)
  then have h2: "healthy r2" by simp
  from write_metaindex_block_healthy [OF h2 wm] obtain mb where
    mb: "metaindex_builder r2 fh = Some mb"
    and mh: "mh = \<lparr> handle_offset = tb_offset r2,
                      handle_size = length (hd (written_block env (options r2) mb)) \<rparr>"
    and h3: "healthy r3"
    and a3: "appended (tb_file r3) = appended (tb_file r2) @ written_block env (options r2) mb"
    and o3: "tb_offset r3 = tb_offset r2 + length (concat (written_block env (options r2) mb))"
    and same3: "options r3 = options r2" "index_block_options r3 = index_block_options r2"
      "index_block r3 = index_block r2" "pending_index_entry r3 = pending_index_entry r2"
      "last_key r3 = last_key r2" "pending_handle r3 = pending_handle r2"
    by blast
  have mb': "(case filter_block r1 of
          None \<Rightarrow> mb = built_block 1 []
        | Some fb \<Rightarrow> (\<exists>p. filter_policy (options r1) = Some p
               \<and> mb = built_block 1
                 [(bytes_of ''filter.'' @ policy_Name p,
                   handle_encoding \<lparr> handle_offset = tb_offset r1,
                                     handle_size = length (fst (FilterBlockBuilder_Finish fb)) \<rparr>)]))"
    using metaindex_builder_Some [OF mb] r2 by (auto split: option.splits)
  from write_index_block_healthy [OF h3 wi] obtain ib where
    ib: "(if pending_index_entry r3
               then BlockBuilder_Add (index_block_options r3) (index_block r3)
                      (ShortSuccessor (comparator (options r3)) (last_key r3))
                      (handle_encoding (pending_handle r3)) = Some ib
               else ib = index_block r3)"
    and ih: "ih = \<lparr> handle_offset = tb_offset r3,
                      handle_size = length (hd (written_block env (options r3) ib)) \<rparr>"
    and h4: "healthy r4"
    and a4: "appended (tb_file r4) = appended (tb_file r3) @ written_block env (options r3) ib"
    by blast
  from write_footer_healthy [OF h4 wfo] have s5: "status r' = OK"
    and a5: "appended (tb_file r') = appended (tb_file r4) @ [footer_bytes mh ih]"
    by simp_all
  have o: "options r3 = options r1" "options r2 = options r1" using same3 r2 by simp_all
  have c1: "appended (tb_file r') =
         appended (tb_file r1) @ fchunks @ written_block env (options r1) mb
           @ written_block env (options r1) ib @ [footer_bytes mh ih]"
    using a5 a4 a3 r2 o by simp
  have c2: "(case filter_block r1 of
          None \<Rightarrow> fchunks = [] \<and> mb = built_block 1 []
        | Some fb \<Rightarrow>
            fchunks = [fst (FilterBlockBuilder_Finish fb),
                       block_trailer env (fst (FilterBlockBuilder_Finish fb)) kNoCompression]
          \<and> (\<exists>p. filter_policy (options r1) = Some p
               \<and> mb = built_block 1
                 [(bytes_of ''filter.'' @ policy_Name p,
                   handle_encoding \<lparr> handle_offset = tb_offset r1,
                                     handle_size = length (fst (FilterBlockBuilder_Finish fb)) \<rparr>)]))"
    using mb' by (auto simp: fchunks_def split: option.splits)
  have c3: "(if pending_index_entry r1
         then BlockBuilder_Add (index_block_options r1) (index_block r1)
                (ShortSuccessor (comparator (options r1)) (last_key r1))
                (handle_encoding (pending_handle r1)) = Some ib
         else ib = index_block r1)"
  proof -
    have e: "index_block_options r3 = index_block_options r1" "index_block r3 = index_block r1"
      "pending_index_entry r3 = pending_index_entry r1" "last_key r3 = last_key r1"
      "pending_handle r3 = pending_handle r1" "options r3 = options r1"
      using same3 r2 by simp_all
    from ib show ?thesis unfolding e .
  qed
  have c4: "mh = \<lparr> handle_offset = tb_offset r1 + length (concat fchunks),
               handle_size = length (hd (written_block env (options r1) mb)) \<rparr>"
    using mh r2 o by simp
  have c5: "ih = \<lparr> handle_offset = handle_offset mh + length (concat (written_block env (options r1) mb)),
               handle_size = length (hd (written_block env (options r1) ib)) \<rparr>"
    using ih o3 mh o by simp
  from st s5 c1 c2 c3 c4 c5 length_footer_bytes [of mh ih] show ?thesis by blast
qed


text \<open>
  Three example builders: \<open>example_table\<close> is a fresh builder without a filter policy;
  \<open>example_filtered_table\<close> is the state of a builder with the filter policy "p" after
  \<open>Add("a", "v")\<close> (\<open>example_filtered_table_reached\<close> below); and
  \<open>example_renamed_table\<close> is that builder after \<open>ChangeOptions\<close> has put the filter
  policy "q" into its options (\<open>example_renamed_table_reached\<close>), while its filter block
  still computes the filters of "p".
\<close>

definition example_policy :: FilterPolicy where
  "example_policy =
     \<lparr> policy_Name = bytes_of ''p'', CreateFilter = (\<lambda>keys. [of_nat (length keys)]) \<rparr>"

definition example_table :: Rep where
  "example_table = the (TableBuilder_new example_options empty_file)"

definition example_filtered_options :: Options where
  "example_filtered_options = example_options\<lparr> filter_policy := Some example_policy \<rparr>"

definition example_filtered_table :: Rep where
  "example_filtered_table =
     \<lparr> options = example_filtered_options,
       index_block_options = example_filtered_options\<lparr> block_restart_interval := 1 \<rparr>,
       tb_file = empty_file,
       tb_offset = 0,
       status = OK,
       data_block = \<lparr> buffer = [0, 1, 1, 97, 118], restarts = [0], counter = 1,
                      finished = False, bb_last_key = [97] \<rparr>,
       index_block = \<lparr> buffer = [], restarts = [0], counter = 0, finished = False,
                       bb_last_key = [] \<rparr>,
       last_key = [97],
       num_entries = 1,
       closed = False,
       filter_block = Some \<lparr> policy = example_policy, fb_keys = [[97]], fb_result = [],
                              filter_offsets = [] \<rparr>,
       pending_index_entry = False,
       pending_handle = BlockHandle_new,
       compressed_output = [] \<rparr>"

definition example_other_policy :: FilterPolicy where
  "example_other_policy =
     \<lparr> policy_Name = bytes_of ''q'', CreateFilter = (\<lambda>keys. []) \<rparr>"

definition example_renamed_options :: Options where
  "example_renamed_options = example_options\<lparr> filter_policy := Some example_other_policy \<rparr>"

definition example_renamed_table :: Rep where
  "example_renamed_table =
     example_filtered_table
       \<lparr> options := example_renamed_options,
         index_block_options := example_renamed_options\<lparr> block_restart_interval := 1 \<rparr> \<rparr>"

lemma encode_varint_eval:
  "v < 128 \<Longrightarrow> encode_varint v = [of_nat v]"
  "\<not> v < 128 \<Longrightarrow> encode_varint v = of_nat (v mod 128 + 128) # encode_varint (v div 128)"
  by (subst encode_varint.simps, simp)+

lemma find_diff_index_eval:
  "m = min (length a) (length b) \<Longrightarrow> find_diff_index a b m 0 = common_prefix_len a b"
  by (simp add: find_diff_index_common_prefix_len)

lemmas table_eval_defs =
  TableBuilder_new_def TableBuilder_Add_def add_pending_index_entry_def note_key_def
  add_to_data_block_def Flush_def Finish_def write_filter_block_def write_metaindex_block_def
  metaindex_builder_def write_index_block_def close_index_block_def write_footer_def
  emit_index_entry_def WriteBlock_def WriteRawBlock_def compress_block_def block_trailer_def
  compression_byte_def TableBuilder_ok_def ok_def
  BlockBuilder_new_def BlockBuilder_Add_def BlockBuilder_Finish_def BlockBuilder_Reset_def
  BlockBuilder_empty_def CurrentSizeEstimate_def
  FilterBlockBuilder_new_def FilterBlockBuilder_Finish_def GenerateFilter_def StartBlock_def
  AddKey_def kFilterBaseLg_def
  BlockHandle_new_def BlockHandle_EncodeTo_def Footer_EncodeTo_def string_resize_def
  kEncodedLength_def kMaxEncodedLength_def kBlockTrailerSize_def kTableMagicNumber_def
  file_Append_def file_Flush_def crc32c_Value_def crc32c_Mask_def EncodeFixed32_def
  PutVarint32_def PutVarint64_def PutFixed32_def encode_varint_eval encode_fixed_numeral
  find_diff_index_eval
  example_options_def example_env_def empty_file_def example_policy_def
  BytewiseComparator_def bytewise_Compare_def slice_compare_def bytes_of_def
  FindShortSuccessor_def FindShortestSeparator_def
  Let_def

lemma example_table_healthy:
  "status example_table = OK \<and> ops_left (tb_file example_table) = None
   \<and> filter_block example_table = None"
  by (simp add: example_table_def table_eval_defs)

lemma example_table_Flush: "Flush example_env example_table = Some example_table"
  by (simp add: example_table_def table_eval_defs)


lemma length_written_block [simp]: "length (written_block env opts b) = 2"
  by (simp add: written_block_def split_beta Let_def)

text \<open>
  C4 (amended). When the status is OK, the file does not fail and \<open>Finish\<close> returns (none
  of its assertions fails, and it does not call through a \<open>NULL\<close> filter policy), it
  returns OK and has appended to what the flush has left in the file, in this order:
  the filter block, uncompressed, with its trailer, if and only if the builder has a filter
  block, that is, if it was constructed with a filter policy; the metaindex block, which
  holds the one entry mapping "filter.<name>" to the filter block's handle when there is a
  filter block, \<open>name\<close> being the name of the filter policy that the options hold when
  \<open>Finish\<close> is called, and no entry otherwise; the index block, after the pending entry, if
  any, has been added under the short successor of the last key; and last the footer,
  48 bytes: the varint-encoded metaindex and index handles padded to 40 bytes, then the
  8-byte little-endian magic number.
\<close>

theorem Finish_writes_table_tail:
  assumes "status r = OK" and "ops_left (tb_file r) = None"
    and "Flush env r = Some r1"
    and "Finish env r = Some (st, r')"
  shows "st = OK \<and> (\<exists>fchunks mb ib mh ih.
       appended (tb_file r') =
         appended (tb_file r1) @ fchunks @ written_block env (options r1) mb
           @ written_block env (options r1) ib @ [footer_bytes mh ih]
     \<and> (case filter_block r1 of
          None \<Rightarrow> fchunks = [] \<and> mb = built_block 1 []
        | Some fb \<Rightarrow>
            fchunks = [fst (FilterBlockBuilder_Finish fb),
                       block_trailer env (fst (FilterBlockBuilder_Finish fb)) kNoCompression]
          \<and> (\<exists>p. filter_policy (options r1) = Some p
               \<and> mb = built_block 1
                 [(bytes_of ''filter.'' @ policy_Name p,
                   handle_encoding \<lparr> handle_offset = tb_offset r1,
                                     handle_size = length (fst (FilterBlockBuilder_Finish fb)) \<rparr>)]))
     \<and> (if pending_index_entry r1
         then BlockBuilder_Add (index_block_options r1) (index_block r1)
                (ShortSuccessor (comparator (options r1)) (last_key r1))
                (handle_encoding (pending_handle r1)) = Some ib
         else ib = index_block r1)
     \<and> mh = \<lparr> handle_offset = tb_offset r1 + length (concat fchunks),
               handle_size = length (hd (written_block env (options r1) mb)) \<rparr>
     \<and> ih = \<lparr> handle_offset = handle_offset mh + length (concat (written_block env (options r1) mb)),
               handle_size = length (hd (written_block env (options r1) ib)) \<rparr>
     \<and> length (footer_bytes mh ih) = 48)"
  using Finish_layout [OF assms] .

text \<open>
  C4 as it is stated, with the filter block and the \<open>filter.<name>\<close> entry written by every
  \<open>Finish\<close>: the file ends with the filter block, a metaindex block of that one entry, the
  index block and the footer.
\<close>

definition claimed_table_tail :: "Env \<Rightarrow> Rep \<Rightarrow> bool" where
  "claimed_table_tail env r \<longleftrightarrow>
     (\<exists>r1 st r' filter_contents name filter_handle ib mh ih.
        Flush env r = Some r1 \<and> Finish env r = Some (st, r')
      \<and> appended (tb_file r') =
          appended (tb_file r1)
            @ [filter_contents, block_trailer env filter_contents kNoCompression]
            @ written_block env (options r1)
                (built_block 1 [(bytes_of ''filter.'' @ name, handle_encoding filter_handle)])
            @ written_block env (options r1) ib
            @ [footer_bytes mh ih])"

lemma example_table_not_claimed:
  "\<not> claimed_table_tail example_env example_table"
proof
  assume "claimed_table_tail example_env example_table"
  then obtain r1 st r' fc name fhandle ib mh ih where
    fl: "Flush example_env example_table = Some r1"
    and fin: "Finish example_env example_table = Some (st, r')"
    and app: "appended (tb_file r') =
          appended (tb_file r1)
            @ [fc, block_trailer example_env fc kNoCompression]
            @ written_block example_env (options r1)
                (built_block 1 [(bytes_of ''filter.'' @ name, handle_encoding fhandle)])
            @ written_block example_env (options r1) ib
            @ [footer_bytes mh ih]"
    unfolding claimed_table_tail_def by blast
  from fl have r1: "r1 = example_table" by (simp add: example_table_Flush)
  from example_table_healthy have h: "status example_table = OK"
    "ops_left (tb_file example_table) = None" and nf: "filter_block r1 = None"
    by (simp_all add: r1)
  from Finish_layout [OF h fl fin] nf obtain mb' ib' mh' ih' where
    "appended (tb_file r') =
         appended (tb_file r1) @ written_block example_env (options r1) mb'
           @ written_block example_env (options r1) ib' @ [footer_bytes mh' ih']"
    by auto
  then have "length (appended (tb_file r')) = length (appended (tb_file r1)) + 5" by simp
  moreover from app have "length (appended (tb_file r')) = length (appended (tb_file r1)) + 7"
    by simp
  ultimately show False by simp
qed


lemma example_table_Finish:
  "\<exists>r'. Finish example_env example_table = Some (OK, r')
        \<and> appended (tb_file r') =
            [[0, 0, 0, 0, 1, 0, 0, 0], [0, 216, 234, 148, 162],
             [0, 0, 0, 0, 1, 0, 0, 0], [0, 216, 234, 148, 162],
             [0, 8, 13, 8] @ replicate 36 0 @ [87, 251, 128, 139, 36, 117, 71, 219]]"
  by (simp add: example_table_def table_eval_defs)




lemma example_filtered_table_reached:
  "\<exists>r0. TableBuilder_new example_filtered_options empty_file = Some r0
       \<and> TableBuilder_Add example_env r0 (bytes_of ''a'') (bytes_of ''v'')
           = Some example_filtered_table"
proof -
  obtain r0 where r0: "TableBuilder_new example_filtered_options empty_file = Some r0"
    by (simp add: example_filtered_options_def table_eval_defs)
  then have "r0 = the (TableBuilder_new example_filtered_options empty_file)" by simp
  then have e: "r0 = example_filtered_table
       \<lparr> data_block := index_block example_filtered_table, last_key := [], num_entries := 0,
         filter_block := Some \<lparr> policy = example_policy, fb_keys = [], fb_result = [],
                              filter_offsets = [] \<rparr> \<rparr>"
    by (simp add: example_filtered_table_def example_filtered_options_def table_eval_defs)
  have "TableBuilder_Add example_env r0 (bytes_of ''a'') (bytes_of ''v'')
           = Some example_filtered_table"
    unfolding e
    by (simp add: example_filtered_table_def example_filtered_options_def table_eval_defs)
  with r0 show ?thesis by blast
qed

lemma example_renamed_table_reached:
  "ChangeOptions example_filtered_table example_renamed_options = (OK, example_renamed_table)"
  by (simp add: ChangeOptions_def example_renamed_table_def example_filtered_table_def
      example_filtered_options_def example_renamed_options_def Let_def)

lemma example_renamed_table_healthy:
  "status example_renamed_table = OK \<and> ops_left (tb_file example_renamed_table) = None"
  by (simp add: example_renamed_table_def example_filtered_table_def empty_file_def)

lemma example_renamed_table_Flush:
  "\<exists>r1. Flush example_env example_renamed_table = Some r1
        \<and> appended (tb_file r1) =
            [[0, 1, 1, 97, 118, 0, 0, 0, 0, 1, 0, 0, 0], [0, 216, 234, 158, 162]]"
  by (simp add: example_renamed_table_def example_renamed_options_def example_other_policy_def
      example_filtered_table_def example_filtered_options_def table_eval_defs)

lemma example_renamed_table_Finish:
  "\<exists>r'. Finish example_env example_renamed_table = Some (OK, r')
        \<and> appended (tb_file r') =
   [[0, 1, 1, 97, 118, 0, 0, 0, 0, 1, 0, 0, 0], [0, 216, 234, 158, 162],
    [1, 0, 0, 0, 0, 1, 0, 0, 0, 11], [0, 216, 234, 152, 162],
    [0, 8, 2, 102, 105, 108, 116, 101, 114, 46, 113, 18, 10, 0, 0, 0, 0, 1, 0, 0, 0],
    [0, 216, 234, 174, 162],
    [0, 1, 2, 98, 0, 13, 0, 0, 0, 0, 1, 0, 0, 0], [0, 216, 234, 160, 162],
    [33, 21, 59, 14] @ replicate 36 0 @ [87, 251, 128, 139, 36, 117, 71, 219]]"
  by (simp add: example_renamed_table_def example_renamed_options_def example_other_policy_def
      example_filtered_table_def example_filtered_options_def table_eval_defs)


text \<open>
  A builder made without a filter policy has no filter block (the guard
  \<open>r->filter_block != NULL\<close>): \<open>Finish\<close> writes no filter block, and the metaindex block has
  no entry. A fresh builder writes an empty metaindex block, an empty index block and the
  footer.
\<close>

theorem Finish_without_filter_policy_counterexample:
  "(\<exists>r'. Finish example_env example_table = Some (OK, r')
        \<and> appended (tb_file r') =
            [[0, 0, 0, 0, 1, 0, 0, 0], [0, 216, 234, 148, 162],
             [0, 0, 0, 0, 1, 0, 0, 0], [0, 216, 234, 148, 162],
             [0, 8, 13, 8] @ replicate 36 0 @ [87, 251, 128, 139, 36, 117, 71, 219]])
   \<and> \<not> claimed_table_tail example_env example_table"
  using example_table_Finish example_table_not_claimed by blast

theorem Finish_writes_table_tail_witness:
  "status example_renamed_table = OK \<and> ops_left (tb_file example_renamed_table) = None
   \<and> (\<exists>r1 r'. Flush example_env example_renamed_table = Some r1
         \<and> Finish example_env example_renamed_table = Some (OK, r')
         \<and> appended (tb_file r') =
   [[0, 1, 1, 97, 118, 0, 0, 0, 0, 1, 0, 0, 0], [0, 216, 234, 158, 162],
    [1, 0, 0, 0, 0, 1, 0, 0, 0, 11], [0, 216, 234, 152, 162],
    [0, 8, 2, 102, 105, 108, 116, 101, 114, 46, 113, 18, 10, 0, 0, 0, 0, 1, 0, 0, 0],
    [0, 216, 234, 174, 162],
    [0, 1, 2, 98, 0, 13, 0, 0, 0, 0, 1, 0, 0, 0], [0, 216, 234, 160, 162],
    [33, 21, 59, 14] @ replicate 36 0 @ [87, 251, 128, 139, 36, 117, 71, 219]]
         \<and> (\<exists>pre mh ih. appended (tb_file r') = appended (tb_file r1) @ pre @ [footer_bytes mh ih]
                \<and> length (footer_bytes mh ih) = 48))"
proof -
  note h = example_renamed_table_healthy
  from example_renamed_table_Flush obtain r1 where
    fl: "Flush example_env example_renamed_table = Some r1" by blast
  from example_renamed_table_Finish obtain r' where
    fin: "Finish example_env example_renamed_table = Some (OK, r')"
    and app: "appended (tb_file r') =
   [[0, 1, 1, 97, 118, 0, 0, 0, 0, 1, 0, 0, 0], [0, 216, 234, 158, 162],
    [1, 0, 0, 0, 0, 1, 0, 0, 0, 11], [0, 216, 234, 152, 162],
    [0, 8, 2, 102, 105, 108, 116, 101, 114, 46, 113, 18, 10, 0, 0, 0, 0, 1, 0, 0, 0],
    [0, 216, 234, 174, 162],
    [0, 1, 2, 98, 0, 13, 0, 0, 0, 0, 1, 0, 0, 0], [0, 216, 234, 160, 162],
    [33, 21, 59, 14] @ replicate 36 0 @ [87, 251, 128, 139, 36, 117, 71, 219]]" by blast
  from Finish_writes_table_tail [OF conjunct1 [OF h] conjunct2 [OF h] fl fin]
  obtain fchunks mb ib mh ih where
    "appended (tb_file r') =
         appended (tb_file r1) @ fchunks @ written_block example_env (options r1) mb
           @ written_block example_env (options r1) ib @ [footer_bytes mh ih]"
    and "length (footer_bytes mh ih) = 48" by blast
  then have "\<exists>pre mh ih. appended (tb_file r') = appended (tb_file r1) @ pre @ [footer_bytes mh ih]
                \<and> length (footer_bytes mh ih) = 48"
    by (intro exI [of _ "fchunks @ written_block example_env (options r1) mb
           @ written_block example_env (options r1) ib"] exI [of _ mh] exI [of _ ih]) simp
  with h fl fin app show ?thesis by blast
qed



section \<open>The log writer\<close>

text \<open>
  The record types and the sizes of db/log_format.h, which is not among the sources; the
  spec gives them: "File is logically a sequence of 32 KiB blocks", "Header size 7",
  "Types: FULL, FIRST, MIDDLE, LAST, plus reserved ZERO (padding)".
\<close>

datatype RecordType = kZeroType | kFullType | kFirstType | kMiddleType | kLastType

definition record_type_byte :: "RecordType \<Rightarrow> byte" where
  "record_type_byte t =
     (case t of kZeroType \<Rightarrow> 0 | kFullType \<Rightarrow> 1 | kFirstType \<Rightarrow> 2
              | kMiddleType \<Rightarrow> 3 | kLastType \<Rightarrow> 4)"

definition kBlockSize :: int where
  "kBlockSize = 32768"

definition kHeaderSize :: int where
  "kHeaderSize = 7"

text \<open>
  \<open>class Writer\<close>: the members \<open>dest_\<close>, \<open>block_offset_\<close> (an \<open>int\<close>) and \<open>type_crc_\<close>, the
  table that \<open>InitTypeCrc\<close> fills with the checksum of each type byte.
\<close>

record Writer =
  dest :: WritableFile
  block_offset :: int
  type_crc :: "RecordType \<Rightarrow> 32 word"

definition InitTypeCrc :: "Env \<Rightarrow> RecordType \<Rightarrow> 32 word" where
  "InitTypeCrc env t = crc32c_Value env [record_type_byte t]"

definition Writer_new :: "Env \<Rightarrow> WritableFile \<Rightarrow> Writer" where
  "Writer_new env f = \<lparr> dest = f, block_offset = 0, type_crc = InitTypeCrc env \<rparr>"

definition Writer_new_at :: "Env \<Rightarrow> WritableFile \<Rightarrow> nat \<Rightarrow> Writer" where
  "Writer_new_at env f dest_length =
     \<lparr> dest = f, block_offset = int dest_length mod kBlockSize, type_crc = InitTypeCrc env \<rparr>"

text \<open>
  \<open>Status Writer::EmitPhysicalRecord(RecordType t, const char* ptr, size_t n)\<close>; the
  argument \<open>payload\<close> is the \<open>n\<close> bytes at \<open>ptr\<close>. A failing \<open>assert\<close> is \<open>None\<close>.
\<close>

definition record_header :: "Env \<Rightarrow> Writer \<Rightarrow> RecordType \<Rightarrow> bytes \<Rightarrow> bytes" where
  "record_header env w t payload =
     (let n = length payload;
          crc = crc32c_Extend env (type_crc w t) payload;
          crc = crc32c_Mask crc
      in EncodeFixed32 crc @ [of_nat (n mod 256), of_nat (n div 256), record_type_byte t])"

definition EmitPhysicalRecord ::
  "Env \<Rightarrow> Writer \<Rightarrow> RecordType \<Rightarrow> bytes \<Rightarrow> (Status \<times> Writer) option" where
  "EmitPhysicalRecord env w t payload =
     (let n = length payload in
      if \<not> n \<le> 0xffff then None
      else if \<not> block_offset w + kHeaderSize + int n \<le> kBlockSize then None
      else
        (let buf = record_header env w t payload;
             (s, f) = file_Append (dest w) buf;
             (s, f) = (if ok s
                       then (let (s, f) = file_Append f payload
                             in if ok s then file_Flush f else (s, f))
                       else (s, f))
         in Some (s, w\<lparr> dest := f, block_offset := block_offset w + kHeaderSize + int n \<rparr>)))"

text \<open>
  The first statements of the loop body of \<open>AddRecord\<close>: a block with fewer than
  \<open>kHeaderSize\<close> bytes left is filled with zero bytes (the status of that \<open>Append\<close> is not
  looked at) and a new block starts.
\<close>

definition switch_block :: "Writer \<Rightarrow> Writer option" where
  "switch_block w =
     (let leftover = kBlockSize - block_offset w in
      if \<not> leftover \<ge> 0 then None
      else if leftover < kHeaderSize
      then (let w = (if leftover > 0
                     then w\<lparr> dest := snd (file_Append (dest w) (replicate (nat leftover) 0)) \<rparr>
                     else w)
            in Some (w\<lparr> block_offset := 0 \<rparr>))
      else Some w)"

definition fragment_type :: "bool \<Rightarrow> bool \<Rightarrow> RecordType" where
  "fragment_type begin end =
     (if begin \<and> end then kFullType
      else if begin then kFirstType
      else if end then kLastType
      else kMiddleType)"

text \<open>
  One run of the body of the \<open>do ... while\<close> loop of \<open>AddRecord\<close>, on the bytes \<open>ptr\<close> that
  are left: the status, the writer, and the bytes left after it.
\<close>

definition AddRecord_body ::
  "Env \<Rightarrow> Writer \<Rightarrow> bytes \<Rightarrow> bool \<Rightarrow> (Status \<times> Writer \<times> bytes) option" where
  "AddRecord_body env w ptr begin =
     (let left = length ptr in
      case switch_block w of
        None \<Rightarrow> None
      | Some w \<Rightarrow>
          if \<not> kBlockSize - block_offset w - kHeaderSize \<ge> 0 then None
          else
            (let avail = nat (kBlockSize - block_offset w - kHeaderSize);
                 fragment_length = (if left < avail then left else avail);
                 end = (left = fragment_length);
                 t = fragment_type begin end
             in case EmitPhysicalRecord env w t (take fragment_length ptr) of
                  None \<Rightarrow> None
                | Some (s, w) \<Rightarrow> Some (s, w, drop fragment_length ptr)))"

text \<open>
  The loop of \<open>AddRecord\<close> ends: every run of the body but the last takes at least one
  byte of the payload, or moves from a block with exactly 7 bytes left to the next block.
\<close>

lemma EmitPhysicalRecord_offset:
  "EmitPhysicalRecord env w t payload = Some (s, w') \<Longrightarrow>
   block_offset w' = block_offset w + kHeaderSize + int (length payload)"
  by (auto simp: EmitPhysicalRecord_def Let_def split: if_splits prod.splits)

lemma switch_block_offset:
  "switch_block w = Some w' \<Longrightarrow>
   block_offset w' = (if kBlockSize - block_offset w < kHeaderSize then 0 else block_offset w)"
  by (auto simp: switch_block_def Let_def split: if_splits)

lemma AddRecord_body_decreases:
  assumes "AddRecord_body env w ptr begin = Some (s, w', ptr')" and "ptr' \<noteq> []"
  shows "2 * length ptr' + (if block_offset w' = kBlockSize - kHeaderSize then 1 else 0)
         < 2 * length ptr + (if block_offset w = kBlockSize - kHeaderSize then 1 else (0::nat))"
proof -
  from assms(1) obtain w1 where sw: "switch_block w = Some w1"
    unfolding AddRecord_body_def by (auto simp: Let_def split: option.splits)
  define avail where "avail = nat (kBlockSize - block_offset w1 - kHeaderSize)"
  define fl where "fl = (if length ptr < avail then length ptr else avail)"
  from assms(1) sw have nn: "kBlockSize - block_offset w1 - kHeaderSize \<ge> 0"
    and em: "EmitPhysicalRecord env w1 (fragment_type begin (length ptr = fl)) (take fl ptr) = Some (s, w')"
    and p': "ptr' = drop fl ptr"
    unfolding AddRecord_body_def avail_def fl_def
    by (auto simp: Let_def split: option.splits if_splits)
  from p' assms(2) have fl_lt: "fl < length ptr" by simp
  then have fl_av: "fl = avail" by (simp add: fl_def split: if_splits)
  note o1 = switch_block_offset [OF sw]
  from EmitPhysicalRecord_offset [OF em] fl_lt
  have o': "block_offset w' = block_offset w1 + kHeaderSize + int fl" by simp
  show ?thesis
  proof (cases "fl = 0")
    case True
    with fl_av nn have "block_offset w1 = kBlockSize - kHeaderSize"
      by (simp add: avail_def)
    with o1 have "block_offset w = kBlockSize - kHeaderSize"
      by (auto simp: kBlockSize_def kHeaderSize_def split: if_splits)
    moreover from o' True \<open>block_offset w1 = kBlockSize - kHeaderSize\<close>
    have "block_offset w' \<noteq> kBlockSize - kHeaderSize"
      by (simp add: kHeaderSize_def)
    ultimately show ?thesis using p' True by simp
  next
    case False
    with p' fl_lt have "length ptr' + 1 \<le> length ptr" by simp
    then show ?thesis by (simp split: if_splits)
  qed
qed

text \<open>
  The \<open>do ... while (s.ok() && left > 0)\<close> loop of \<open>AddRecord\<close>; \<open>begin\<close> is false after
  the first run of the body.
\<close>

function AddRecord_loop :: "Env \<Rightarrow> Writer \<Rightarrow> bytes \<Rightarrow> bool \<Rightarrow> (Status \<times> Writer) option" where
  "AddRecord_loop env w ptr begin =
     (case AddRecord_body env w ptr begin of
        None \<Rightarrow> None
      | Some (s, w', ptr') \<Rightarrow>
          if ok s \<and> length ptr' > 0 then AddRecord_loop env w' ptr' False
          else Some (s, w'))"
  by pat_completeness auto
termination
proof (relation "measure (\<lambda>(env, w, ptr, begin).
          2 * length ptr + (if block_offset w = kBlockSize - kHeaderSize then 1 else 0))")
  show "wf (measure (\<lambda>(env, w, ptr, begin).
          2 * length ptr + (if block_offset w = kBlockSize - kHeaderSize then 1 else 0)))"
    by simp
next
  fix env w ptr b x2 s y w' ptr'
  assume "AddRecord_body env w ptr b = Some x2" "(s, y) = x2" "(w', ptr') = y"
    "ok s \<and> 0 < length ptr'"
  then have "AddRecord_body env w ptr b = Some (s, w', ptr')" "ptr' \<noteq> []" by auto
  from AddRecord_body_decreases [OF this]
  show "((env, w', ptr', False), env, w, ptr, b)
       \<in> measure (\<lambda>(env, w, ptr, begin).
          2 * length ptr + (if block_offset w = kBlockSize - kHeaderSize then 1 else 0))"
    by simp
qed


declare AddRecord_loop.simps [simp del]

text \<open>\<open>Status Writer::AddRecord(const Slice& slice)\<close>.\<close>

definition AddRecord :: "Env \<Rightarrow> Writer \<Rightarrow> bytes \<Rightarrow> (Status \<times> Writer) option" where
  "AddRecord env w payload = AddRecord_loop env w payload True"

subsection \<open>The fragments of a record, as the spec describes them\<close>

text \<open>
  The spec's words: "If the remaining space in the current block is less than 7 bytes, it
  is padded with zero bytes and a new block is started. Within a block, if the remaining
  space minus the 7-byte header is \<ge> 0 but the logical record is larger than that, emit
  FIRST now and continue in the next block; intermediate blocks carry MIDDLE; the final
  fragment carries LAST. A record that fits entirely in the current block as a single
  fragment is FULL." \<open>record_start\<close> is the offset in its block at which the first
  physical record starts, \<open>block_padding\<close> the zero bytes written before it, and
  \<open>block_avail\<close> the payload bytes that fit behind its header. \<open>fragments\<close> cuts the
  payload: the first fragment takes what fits into the current block, and every further
  block takes 32761 = 32768 - 7 bytes (\<open>chop\<close>) until the payload ends. A physical record
  is a header, as \<open>EmitPhysicalRecord\<close> formats it, and the fragment.
\<close>

function chop :: "nat \<Rightarrow> bytes \<Rightarrow> bytes list" where
  "chop n xs = (if n = 0 \<or> length xs \<le> n then [xs] else take n xs # chop n (drop n xs))"
  by pat_completeness auto
termination
  by (relation "measure (\<lambda>(n, xs). length xs)") auto

declare chop.simps [simp del]

definition fragments :: "nat \<Rightarrow> bytes \<Rightarrow> bytes list" where
  "fragments avail p =
     (if length p \<le> avail then [p] else take avail p # chop 32761 (drop avail p))"

definition fragment_types :: "nat \<Rightarrow> RecordType list" where
  "fragment_types n =
     (if n = 1 then [kFullType]
      else kFirstType # replicate (n - 2) kMiddleType @ [kLastType])"

definition physical_record :: "Env \<Rightarrow> Writer \<Rightarrow> RecordType \<times> bytes \<Rightarrow> bytes list" where
  "physical_record env w td = [record_header env w (fst td) (snd td), snd td]"

definition block_padding :: "int \<Rightarrow> bytes list" where
  "block_padding offset =
     (if 0 < kBlockSize - offset \<and> kBlockSize - offset < kHeaderSize
      then [replicate (nat (kBlockSize - offset)) 0] else [])"

definition record_start :: "int \<Rightarrow> int" where
  "record_start offset = (if kBlockSize - offset < kHeaderSize then 0 else offset)"

definition block_avail :: "int \<Rightarrow> nat" where
  "block_avail offset = nat (kBlockSize - record_start offset - kHeaderSize)"

definition example_writer :: Writer where
  "example_writer = Writer_new example_env empty_file"

subsection \<open>The loop writes the fragments\<close>

lemma file_Flush_never_fails: "ops_left f = None \<Longrightarrow> file_Flush f = (OK, f)"
  by (simp add: file_Flush_def)

lemma EmitPhysicalRecord_never_fails:
  assumes "ops_left (dest w) = None" and "length d \<le> 32761"
    and "block_offset w + 7 + int (length d) \<le> 32768"
  shows "EmitPhysicalRecord env w t d =
     Some (OK, w\<lparr> dest := (dest w)\<lparr> appended := appended (dest w) @ physical_record env w (t, d) \<rparr>,
                   block_offset := block_offset w + 7 + int (length d) \<rparr>)"
  using assms
  by (simp add: EmitPhysicalRecord_def Let_def file_Append_never_fails file_Flush_never_fails
      ok_def physical_record_def kHeaderSize_def kBlockSize_def)

lemma switch_block_never_fails:
  assumes "ops_left (dest w) = None" and "0 \<le> block_offset w" and "block_offset w \<le> kBlockSize"
  shows "switch_block w =
     Some (w\<lparr> dest := (dest w)\<lparr> appended := appended (dest w) @ block_padding (block_offset w) \<rparr>,
              block_offset := record_start (block_offset w) \<rparr>)"
  using assms
  by (auto simp: switch_block_def Let_def file_Append_never_fails block_padding_def
      record_start_def)

lemma record_start_bounds:
  "0 \<le> offset \<Longrightarrow> offset \<le> kBlockSize \<Longrightarrow>
   0 \<le> record_start offset \<and> record_start offset + kHeaderSize \<le> kBlockSize"
  by (auto simp: record_start_def kBlockSize_def kHeaderSize_def)

lemma physical_record_cong:
  "type_crc w' = type_crc w \<Longrightarrow> physical_record env w' = physical_record env w"
  by (rule ext) (simp add: physical_record_def record_header_def)

lemma AddRecord_body_never_fails:
  assumes nf: "ops_left (dest w) = None" and b0: "0 \<le> block_offset w"
    and b1: "block_offset w \<le> kBlockSize"
  shows "AddRecord_body env w ptr b =
     Some (OK,
           w\<lparr> dest := (dest w)\<lparr> appended := appended (dest w) @ block_padding (block_offset w)
                   @ physical_record env w
                       (fragment_type b (length ptr \<le> block_avail (block_offset w)),
                        take (block_avail (block_offset w)) ptr) \<rparr>,
              block_offset := record_start (block_offset w) + 7
                              + int (min (length ptr) (block_avail (block_offset w))) \<rparr>,
           drop (block_avail (block_offset w)) ptr)"
proof -
  let ?a = "block_avail (block_offset w)"
  let ?w1 = "w\<lparr> dest := (dest w)\<lparr> appended := appended (dest w) @ block_padding (block_offset w) \<rparr>,
              block_offset := record_start (block_offset w) \<rparr>"
  note rs = record_start_bounds [OF b0 b1]
  have sw: "switch_block w = Some ?w1"
    by (rule switch_block_never_fails [OF nf b0 b1])
  define fl where "fl = (if length ptr < ?a then length ptr else ?a)"
  have fl: "fl = min (length ptr) ?a" by (simp add: fl_def)
  have a_le: "?a \<le> 32761"
    using rs unfolding block_avail_def kBlockSize_def kHeaderSize_def by linarith
  have tk: "take fl ptr = take ?a ptr" "drop fl ptr = drop ?a ptr"
    by (simp_all add: fl_def)
  have en: "(length ptr = fl) = (length ptr \<le> ?a)" by (auto simp: fl_def)
  have len: "length (take fl ptr) = fl" by (simp add: fl_def)
  have e1: "length (take fl ptr) \<le> 32761" using a_le by (simp add: fl_def)
  have e2: "block_offset ?w1 + 7 + int (length (take fl ptr)) \<le> 32768"
    using rs unfolding len fl block_avail_def kBlockSize_def kHeaderSize_def
    by (auto simp: min_def)
  have nf1: "ops_left (dest ?w1) = None" using nf by simp
  have pr: "physical_record env ?w1 = physical_record env w"
    by (rule physical_record_cong) simp
  have em: "EmitPhysicalRecord env ?w1 (fragment_type b (length ptr = fl)) (take fl ptr) =
     Some (OK, ?w1\<lparr> dest := (dest ?w1)\<lparr> appended := appended (dest ?w1)
                       @ physical_record env w (fragment_type b (length ptr = fl), take fl ptr) \<rparr>,
                   block_offset := block_offset ?w1 + 7 + int (length (take fl ptr)) \<rparr>)"
    using EmitPhysicalRecord_never_fails [OF nf1 e1 e2] pr by simp
  have nn: "kBlockSize - block_offset ?w1 - kHeaderSize \<ge> 0" using rs by simp
  have av: "nat (kBlockSize - block_offset ?w1 - kHeaderSize) = ?a"
    by (simp add: block_avail_def)
  show ?thesis
    unfolding AddRecord_body_def Let_def sw option.case av fl_def [symmetric]
    using nn em by (simp add: tk [unfolded fl] en [unfolded fl] len fl)
qed


lemma chop_not_Nil [simp]: "chop n xs \<noteq> []"
  by (subst chop.simps) simp

lemma concat_chop: "concat (chop n xs) = xs"
proof (induction n xs rule: chop.induct)
  case (1 n xs)
  show ?case
  proof (cases "n = 0 \<or> length xs \<le> n")
    case True
    then show ?thesis by (subst chop.simps) simp
  next
    case False
    with "1.IH" show ?thesis by (subst chop.simps) simp
  qed
qed

lemma chop_lengths:
  "0 < n \<Longrightarrow> (\<forall>d \<in> set (chop n xs). length d \<le> n) \<and> (\<forall>d \<in> set (butlast (chop n xs)). length d = n)"
proof (induction n xs rule: chop.induct)
  case (1 n xs)
  show ?case
  proof (cases "n = 0 \<or> length xs \<le> n")
    case True
    then have c: "chop n xs = [xs]" by (subst chop.simps) simp
    from True "1.prems" show ?thesis unfolding c by simp
  next
    case False
    then have ch: "chop n xs = take n xs # chop n (drop n xs)" by (subst chop.simps) simp
    from False have t: "length (take n xs) = n" by simp
    have bl: "butlast (chop n xs) = take n xs # butlast (chop n (drop n xs))"
      unfolding ch by simp
    from "1.IH" [OF False "1.prems"]
    have ih1: "\<And>d. d \<in> set (chop n (drop n xs)) \<Longrightarrow> length d \<le> n"
      and ih2: "\<And>d. d \<in> set (butlast (chop n (drop n xs))) \<Longrightarrow> length d = n"
      by blast+
    have "\<forall>d \<in> set (chop n xs). length d \<le> n"
    proof
      fix d assume "d \<in> set (chop n xs)"
      then have "d = take n xs \<or> d \<in> set (chop n (drop n xs))" unfolding ch by simp
      then show "length d \<le> n"
      proof
        assume "d = take n xs"
        then show ?thesis by simp
      next
        assume "d \<in> set (chop n (drop n xs))"
        then show ?thesis by (rule ih1)
      qed
    qed
    moreover have "\<forall>d \<in> set (butlast (chop n xs)). length d = n"
    proof
      fix d assume "d \<in> set (butlast (chop n xs))"
      then have "d = take n xs \<or> d \<in> set (butlast (chop n (drop n xs)))" unfolding bl by simp
      then show "length d = n"
      proof
        assume "d = take n xs"
        then show ?thesis using t by (simp only:)
      next
        assume "d \<in> set (butlast (chop n (drop n xs)))"
        then show ?thesis by (rule ih2)
      qed
    qed
    ultimately show ?thesis by blast
  qed
qed

lemma block_at_end [simp]:
  "block_padding kBlockSize = []" "record_start kBlockSize = 0" "block_avail kBlockSize = 32761"
  by (simp_all add: block_padding_def record_start_def block_avail_def kBlockSize_def
      kHeaderSize_def)

lemma AddRecord_loop_rest:
  assumes "ops_left (dest w) = None" and "block_offset w = kBlockSize" and "ptr \<noteq> []"
  shows "\<exists>w'. AddRecord_loop env w ptr False = Some (OK, w')
        \<and> appended (dest w') =
            appended (dest w)
              @ concat (map (physical_record env w)
                          (zip (replicate (length (chop 32761 ptr) - 1) kMiddleType @ [kLastType])
                               (chop 32761 ptr)))
        \<and> block_offset w' = 7 + int (length (last (chop 32761 ptr)))
        \<and> ops_left (dest w') = None \<and> type_crc w' = type_crc w"
  using assms
proof (induction ptr arbitrary: w rule: length_induct)
  case (1 ptr)
  note nf = \<open>ops_left (dest w) = None\<close> and bo = \<open>block_offset w = kBlockSize\<close>
  have b0: "0 \<le> block_offset w" and b1: "block_offset w \<le> kBlockSize"
    by (simp_all add: bo kBlockSize_def)
  note body = AddRecord_body_never_fails [OF nf b0 b1, of env ptr False, unfolded bo block_at_end]
  show ?case
  proof (cases "length ptr \<le> 32761")
    case True
    then have ch: "chop 32761 ptr = [ptr]" by (subst chop.simps) simp
    from True show ?thesis
      by (subst AddRecord_loop.simps) (simp add: body ch fragment_type_def ok_def nf)
  next
    case False
    then have ch: "chop 32761 ptr = take 32761 ptr # chop 32761 (drop 32761 ptr)"
      by (subst chop.simps) simp
    let ?w1 = "w\<lparr> dest := (dest w)\<lparr> appended := appended (dest w)
                   @ physical_record env w (kMiddleType, take 32761 ptr) \<rparr>,
              block_offset := 0 + 7 + int (min (length ptr) 32761) \<rparr>"
    let ?rest = "drop 32761 ptr"
    from False have r1: "length ?rest < length ptr" and r2: "?rest \<noteq> []" by simp_all
    have nf1: "ops_left (dest ?w1) = None" using nf by simp
    have bo1: "block_offset ?w1 = kBlockSize" using False by (simp add: kBlockSize_def)
    from "1.IH" [rule_format, OF r1 nf1 bo1 r2] obtain w' where
      l: "AddRecord_loop env ?w1 ?rest False = Some (OK, w')"
      and a: "appended (dest w') =
            appended (dest ?w1)
              @ concat (map (physical_record env ?w1)
                          (zip (replicate (length (chop 32761 ?rest) - 1) kMiddleType @ [kLastType])
                               (chop 32761 ?rest)))"
      and o: "block_offset w' = 7 + int (length (last (chop 32761 ?rest)))"
      and k: "ops_left (dest w') = None \<and> type_crc w' = type_crc ?w1"
      by blast
    have pr: "physical_record env ?w1 = physical_record env w"
      by (rule physical_record_cong) simp
    obtain c cs where ccs: "chop 32761 ?rest = c # cs"
      by (cases "chop 32761 ?rest") simp_all
    have rep: "replicate (length (chop 32761 ptr) - 1) kMiddleType @ [kLastType]
               = kMiddleType # replicate (length (chop 32761 ?rest) - 1) kMiddleType @ [kLastType]"
      by (simp add: ch ccs)
    have loop: "AddRecord_loop env w ptr False = Some (OK, w')"
      using False l r2
      by (subst AddRecord_loop.simps) (simp add: body fragment_type_def ok_def)
    from loop a o k show ?thesis
      unfolding rep pr by (simp add: ch)
  qed
qed


lemma length_fragments_gt:
  "length (fragments a p) > 1 \<longleftrightarrow> a < length p"
  by (cases "chop 32761 (drop a p)") (simp_all add: fragments_def)

lemma AddRecord_layout:
  assumes nf: "ops_left (dest w) = None" and b0: "0 \<le> block_offset w"
    and b1: "block_offset w \<le> kBlockSize"
    and frs: "frs = fragments (block_avail (block_offset w)) payload"
  shows "\<exists>w'. AddRecord env w payload = Some (OK, w')
        \<and> appended (dest w') =
            appended (dest w) @ block_padding (block_offset w)
              @ concat (map (physical_record env w) (zip (fragment_types (length frs)) frs))
        \<and> block_offset w' =
            (if length frs = 1 then record_start (block_offset w) else 0)
              + kHeaderSize + int (length (last frs))
        \<and> ops_left (dest w') = None \<and> type_crc w' = type_crc w"
proof -
  let ?a = "block_avail (block_offset w)"
  note body = AddRecord_body_never_fails [OF nf b0 b1, of env payload True]
  note rs = record_start_bounds [OF b0 b1]
  show ?thesis
  proof (cases "length payload \<le> ?a")
    case True
    then have f: "frs = [payload]" by (simp add: frs fragments_def)
    from True show ?thesis
      unfolding AddRecord_def
      by (subst AddRecord_loop.simps)
         (simp add: body f fragment_type_def fragment_types_def ok_def nf kHeaderSize_def)
  next
    case False
    let ?rest = "drop ?a payload"
    let ?w1 = "w\<lparr> dest := (dest w)\<lparr> appended := appended (dest w) @ block_padding (block_offset w)
                   @ physical_record env w (kFirstType, take ?a payload) \<rparr>,
              block_offset := record_start (block_offset w) + 7
                              + int (min (length payload) ?a) \<rparr>"
    from False have f: "frs = take ?a payload # chop 32761 ?rest"
      by (simp add: frs fragments_def)
    from False have r2: "?rest \<noteq> []" by simp
    have nf1: "ops_left (dest ?w1) = None" using nf by simp
    have "int ?a = kBlockSize - record_start (block_offset w) - kHeaderSize"
      using rs by (simp add: block_avail_def)
    with False have bo1: "block_offset ?w1 = kBlockSize"
      by (simp add: kHeaderSize_def min_def)
    from AddRecord_loop_rest [OF nf1 bo1 r2, of env] obtain w' where
      l: "AddRecord_loop env ?w1 ?rest False = Some (OK, w')"
      and a: "appended (dest w') =
            appended (dest ?w1)
              @ concat (map (physical_record env ?w1)
                          (zip (replicate (length (chop 32761 ?rest) - 1) kMiddleType @ [kLastType])
                               (chop 32761 ?rest)))"
      and o: "block_offset w' = 7 + int (length (last (chop 32761 ?rest)))"
      and k: "ops_left (dest w') = None \<and> type_crc w' = type_crc ?w1"
      by blast
    have pr: "physical_record env ?w1 = physical_record env w"
      by (rule physical_record_cong) simp
    obtain c cs where ccs: "chop 32761 ?rest = c # cs"
      by (cases "chop 32761 ?rest") simp_all
    have ty: "fragment_types (length frs)
               = kFirstType # replicate (length (chop 32761 ?rest) - 1) kMiddleType @ [kLastType]"
      by (simp add: f ccs fragment_types_def)
    have loop: "AddRecord env w payload = Some (OK, w')"
      unfolding AddRecord_def
      using False l r2
      by (subst AddRecord_loop.simps) (simp add: body fragment_type_def ok_def)
    have la: "last frs = last (chop 32761 ?rest)" by (simp add: f)
    have len: "length frs \<noteq> 1" by (simp add: f ccs)
    from loop a o k show ?thesis
      unfolding ty pr la by (simp add: f len kHeaderSize_def)
  qed
qed

lemma fragments_facts:
  assumes b0: "0 \<le> offset" and b1: "offset \<le> kBlockSize"
    and frs: "frs = fragments (block_avail offset) payload"
  shows "concat frs = payload"
    and "record_start offset + kHeaderSize + int (length (hd frs)) \<le> kBlockSize"
    and "\<forall>d \<in> set (tl frs). kHeaderSize + int (length d) \<le> kBlockSize"
    and "1 < length frs \<longrightarrow> record_start offset + kHeaderSize + int (length (hd frs)) = kBlockSize"
    and "\<forall>d \<in> set (butlast (tl frs)). kHeaderSize + int (length d) = kBlockSize"
    and "payload = [] \<longrightarrow> frs = [[]]"
proof -
  let ?a = "block_avail offset"
  note rs = record_start_bounds [OF b0 b1]
  have a: "int ?a = kBlockSize - record_start offset - kHeaderSize"
    using rs by (simp add: block_avail_def)
  have cl: "\<And>d xs. d \<in> set (chop 32761 xs) \<Longrightarrow> length d \<le> 32761"
    and cb: "\<And>d xs. d \<in> set (butlast (chop 32761 xs)) \<Longrightarrow> length d = 32761"
    using chop_lengths [of 32761] by auto
  show "concat frs = payload"
    by (simp add: frs fragments_def concat_chop)
  show "record_start offset + kHeaderSize + int (length (hd frs)) \<le> kBlockSize"
    using a by (auto simp: frs fragments_def)
  show "\<forall>d \<in> set (tl frs). kHeaderSize + int (length d) \<le> kBlockSize"
    using cl by (auto simp: frs fragments_def kHeaderSize_def kBlockSize_def)
  show "1 < length frs \<longrightarrow> record_start offset + kHeaderSize + int (length (hd frs)) = kBlockSize"
    using a by (auto simp: frs fragments_def)
  show "\<forall>d \<in> set (butlast (tl frs)). kHeaderSize + int (length d) = kBlockSize"
    using cb by (auto simp: frs fragments_def kHeaderSize_def kBlockSize_def)
  show "payload = [] \<longrightarrow> frs = [[]]"
    by (simp add: frs fragments_def)
qed


section \<open>Claim C2: the fragments of a log record\<close>

text \<open>
  C2. On a file that does not fail, and with the writer's block offset between 0 and the
  block size, \<open>AddRecord\<close> returns OK for every payload, and what it appends to the file
  is: the zero bytes that fill the current block when fewer than 7 bytes are left in it
  (a new block starts then); and after them the physical records of the fragments \<open>frs\<close>
  of the payload, in order, each a 7-byte header followed by its fragment. The fragments
  put together are the payload. A single fragment is typed FULL; otherwise the first is
  typed FIRST, the last LAST, and those between them MIDDLE. Every physical record lies
  within one block: the first starts at the offset \<open>record_start\<close> and ends at or before
  the end of its block; every fragment but the last fills its block to the last byte, so
  that every later record starts at offset 0 of a new block, and it is no longer than a
  block. The writer is left at the offset behind the last record. The empty payload has
  the one fragment of no bytes, so it is written as one FULL record without payload.
\<close>

theorem AddRecord_fragments:
  assumes "ops_left (dest w) = None" and "0 \<le> block_offset w"
    and "block_offset w \<le> kBlockSize"
    and "frs = fragments (block_avail (block_offset w)) payload"
  shows "(\<exists>w'. AddRecord env w payload = Some (OK, w')
        \<and> appended (dest w') =
            appended (dest w) @ block_padding (block_offset w)
              @ concat (map (physical_record env w) (zip (fragment_types (length frs)) frs))
        \<and> block_offset w' =
            (if length frs = 1 then record_start (block_offset w) else 0)
              + kHeaderSize + int (length (last frs))
        \<and> ops_left (dest w') = None \<and> type_crc w' = type_crc w)
     \<and> concat frs = payload
     \<and> record_start (block_offset w) + kHeaderSize + int (length (hd frs)) \<le> kBlockSize
     \<and> (\<forall>d \<in> set (tl frs). kHeaderSize + int (length d) \<le> kBlockSize)
     \<and> (1 < length frs \<longrightarrow>
          record_start (block_offset w) + kHeaderSize + int (length (hd frs)) = kBlockSize)
     \<and> (\<forall>d \<in> set (butlast (tl frs)). kHeaderSize + int (length d) = kBlockSize)
     \<and> (payload = [] \<longrightarrow> frs = [[]])"
  using AddRecord_layout [OF assms, of env] fragments_facts [OF assms(2,3,4)] by blast

text \<open>
  The examples: a writer on an empty file, with the stand-in checksum of \<open>example_env\<close>.
\<close>

lemma chop_eval:
  "length xs \<le> n \<Longrightarrow> chop n xs = [xs]"
  "\<not> (n = 0 \<or> length xs \<le> n) \<Longrightarrow> chop n xs = take n xs # chop n (drop n xs)"
  by (subst chop.simps, simp)+

lemma example_writer_facts:
  "ops_left (dest example_writer) = None" "block_offset example_writer = 0"
  "appended (dest example_writer) = []"
  by (simp_all add: example_writer_def Writer_new_def empty_file_def)

lemma block_at_start:
  "block_padding 0 = []" "record_start 0 = 0" "block_avail 0 = 32761"
  by (simp_all add: block_padding_def record_start_def block_avail_def kBlockSize_def
      kHeaderSize_def)

lemma example_fragments:
  "fragments 32761 (replicate 81920 (0::byte))
     = [replicate 32761 0, replicate 32761 0, replicate 16398 0]"
  by (simp add: fragments_def chop_eval)


lemma example_record_header:
  "record_header example_env example_writer kFirstType (replicate 32761 0)
     = [216, 234, 118, 162, 249, 127, 2]"
  "record_header example_env example_writer kMiddleType (replicate 32761 0)
     = [216, 234, 118, 162, 249, 127, 3]"
  "record_header example_env example_writer kLastType (replicate 16398 0)
     = [216, 234, 160, 34, 14, 64, 4]"
  "record_header example_env example_writer kFullType []
     = [216, 234, 132, 162, 0, 0, 1]"
  "record_header example_env example_writer kFullType (replicate 32758 0)
     = [216, 234, 112, 162, 246, 127, 1]"
  "record_header example_env example_writer kFullType [1]
     = [216, 234, 134, 162, 1, 0, 1]"
  by (simp_all add: record_header_def example_writer_def Writer_new_def InitTypeCrc_def
      record_type_byte_def crc32c_Value_def crc32c_Mask_def EncodeFixed32_def example_env_def
      encode_fixed_numeral Let_def)


lemma record_header_cong:
  "type_crc w' = type_crc w \<Longrightarrow> record_header env w' t d = record_header env w t d"
  by (simp add: record_header_def)

lemma block_near_end:
  "block_padding 32765 = [[0, 0, 0]]" "record_start 32765 = 0" "block_avail 32765 = 32761"
  by (simp_all add: block_padding_def record_start_def block_avail_def kBlockSize_def
      kHeaderSize_def numeral_3_eq_3)

text \<open>
  An 80 KiB record written to a fresh file is a FIRST record of 32761 payload bytes, a
  MIDDLE record of 32761 and a LAST record of 16398; the empty record is one FULL record;
  and a record written when 3 bytes are left in the block comes after 3 zero bytes.
\<close>

theorem AddRecord_fragments_witness:
  "ops_left (dest example_writer) = None \<and> 0 \<le> block_offset example_writer
   \<and> block_offset example_writer \<le> kBlockSize
   \<and> fragments (block_avail (block_offset example_writer)) (replicate 81920 0)
        = [replicate 32761 0, replicate 32761 0, replicate 16398 0]
   \<and> fragment_types 3 = [kFirstType, kMiddleType, kLastType]
   \<and> (\<exists>w'. AddRecord example_env example_writer (replicate 81920 0) = Some (OK, w')
          \<and> appended (dest w') =
               [[216, 234, 118, 162, 249, 127, 2], replicate 32761 0,
                [216, 234, 118, 162, 249, 127, 3], replicate 32761 0,
                [216, 234, 160, 34, 14, 64, 4], replicate 16398 0]
          \<and> block_offset w' = 16405)
   \<and> (\<exists>w'. AddRecord example_env example_writer [] = Some (OK, w')
          \<and> appended (dest w') = [[216, 234, 132, 162, 0, 0, 1], []]
          \<and> block_offset w' = 7)
   \<and> (\<exists>w1 w2. AddRecord example_env example_writer (replicate 32758 0) = Some (OK, w1)
          \<and> block_offset w1 = 32765
          \<and> AddRecord example_env w1 [1] = Some (OK, w2)
          \<and> appended (dest w2) =
               [[216, 234, 112, 162, 246, 127, 1], replicate 32758 0,
                [0, 0, 0],
                [216, 234, 134, 162, 1, 0, 1], [1]]
          \<and> block_offset w2 = 8)"
proof -
  note f = example_writer_facts
  have b: "0 \<le> block_offset example_writer" "block_offset example_writer \<le> kBlockSize"
    by (simp_all add: f kBlockSize_def)
  have fr: "fragments (block_avail (block_offset example_writer)) (replicate 81920 0)
        = [replicate 32761 0, replicate 32761 0, replicate 16398 0]"
    by (simp add: f block_at_start example_fragments)
  have ty: "fragment_types 3 = [kFirstType, kMiddleType, kLastType]"
    by (simp add: fragment_types_def)
  have ty3: "fragment_types (Suc (Suc (Suc 0))) = [kFirstType, kMiddleType, kLastType]"
    by (simp add: fragment_types_def)
  from AddRecord_fragments [OF f(1) b fr [symmetric], of example_env, THEN conjunct1]
  have A: "\<exists>w'. AddRecord example_env example_writer (replicate 81920 0) = Some (OK, w')
          \<and> appended (dest w') =
               [[216, 234, 118, 162, 249, 127, 2], replicate 32761 0,
                [216, 234, 118, 162, 249, 127, 3], replicate 32761 0,
                [216, 234, 160, 34, 14, 64, 4], replicate 16398 0]
          \<and> block_offset w' = 16405"
    by (auto simp: f block_at_start ty3 physical_record_def example_record_header kHeaderSize_def)
  have fe: "[[]] = fragments (block_avail (block_offset example_writer)) ([] :: bytes)"
    by (simp add: fragments_def)
  from AddRecord_fragments [OF f(1) b fe, of example_env, THEN conjunct1]
  have B: "\<exists>w'. AddRecord example_env example_writer [] = Some (OK, w')
          \<and> appended (dest w') = [[216, 234, 132, 162, 0, 0, 1], []]
          \<and> block_offset w' = 7"
    by (auto simp: f block_at_start fragment_types_def physical_record_def example_record_header
        kHeaderSize_def)
  have f1: "[replicate 32758 0] = fragments (block_avail (block_offset example_writer))
                                      (replicate 32758 (0::byte))"
    by (simp add: f block_at_start fragments_def)
  from AddRecord_fragments [OF f(1) b f1, of example_env, THEN conjunct1]
  obtain w1 where w1: "AddRecord example_env example_writer (replicate 32758 0) = Some (OK, w1)"
    and a1: "appended (dest w1) = [[216, 234, 112, 162, 246, 127, 1], replicate 32758 0]"
    and o1: "block_offset w1 = 32765"
    and n1: "ops_left (dest w1) = None" and t1: "type_crc w1 = type_crc example_writer"
    by (auto simp: f block_at_start fragment_types_def physical_record_def
        example_record_header kHeaderSize_def)
  have b1: "0 \<le> block_offset w1" "block_offset w1 \<le> kBlockSize"
    by (simp_all add: o1 kBlockSize_def)
  have f2: "[[1]] = fragments (block_avail (block_offset w1)) [1 :: byte]"
    by (simp add: o1 block_near_end fragments_def)
  from AddRecord_fragments [OF n1 b1 f2, of example_env, THEN conjunct1]
  obtain w2 where w2: "AddRecord example_env w1 [1] = Some (OK, w2)"
    and a2: "appended (dest w2) =
               [[216, 234, 112, 162, 246, 127, 1], replicate 32758 0,
                [0, 0, 0],
                [216, 234, 134, 162, 1, 0, 1], [1]]"
    and o2: "block_offset w2 = 8"
    by (auto simp: a1 o1 block_near_end fragment_types_def physical_record_def
        record_header_cong [OF t1] example_record_header kHeaderSize_def)
  from w1 o1 w2 a2 o2 have C: "\<exists>w1 w2. AddRecord example_env example_writer (replicate 32758 0) = Some (OK, w1)
          \<and> block_offset w1 = 32765
          \<and> AddRecord example_env w1 [1] = Some (OK, w2)
          \<and> appended (dest w2) =
               [[216, 234, 112, 162, 246, 127, 1], replicate 32758 0,
                [0, 0, 0],
                [216, 234, 134, 162, 1, 0, 1], [1]]
          \<and> block_offset w2 = 8"
    by blast
  from f(1) b fr ty A B C show ?thesis by blast
qed


section \<open>WriteBatch\<close>












subsection \<open>Well-formed and malformed batches\<close>






subsection \<open>The loop follows the records\<close>

















section \<open>Claim C7: \<open>Iterate\<close> reports exactly the malformed batches\<close>




section \<open>The LRU cache\<close>

text \<open>
  \<open>struct LRUHandle\<close> and \<open>class LRUCache\<close> of util/cache.cc, one shard of the cache. The
  entries live in a store \<open>handles\<close> from addresses to \<open>LRUHandle\<close>s; a freed entry is no
  longer in the store, and a read through a dangling or \<open>NULL\<close> pointer is the result
  \<open>None\<close>, as is a failing \<open>assert\<close>. The two circular lists \<open>lru_\<close> and \<open>in_use_\<close>, linked
  through the fields \<open>next\<close> and \<open>prev\<close>, are the lists \<open>lru\<close> and \<open>in_use\<close> of the addresses
  on them, from \<open>lru_.next\<close> (the oldest) to \<open>lru_.prev\<close> (the newest). The \<open>HandleTable\<close>,
  chained through \<open>next_hash\<close>, finds an entry by its hash and its key, and is the map
  \<open>table\<close> from these to the address. \<open>value\<close> and \<open>deleter\<close> are pointers, here numbers;
  \<open>deleted\<close> is the list of the calls \<open>(*e->deleter)(e->key(), e->value)\<close> made so far. The
  counters \<open>usage_\<close> (\<open>size_t\<close>) and \<open>refs\<close> (\<open>uint32_t\<close>) wrap around.
\<close>

type_synonym addr = nat

record LRUHandle =
  h_value :: nat
  deleter :: nat
  charge :: nat
  h_key :: bytes
  in_cache :: bool
  refs :: nat
  h_hash :: nat

record LRUCache =
  capacity :: nat
  usage :: nat
  lru :: "addr list"
  in_use :: "addr list"
  table :: "bytes \<times> nat \<Rightarrow> addr option"
  handles :: "addr \<Rightarrow> LRUHandle option"
  deleted :: "(nat \<times> bytes \<times> nat) list"

text \<open>
  \<open>LRUCache::LRUCache()\<close> followed by \<open>SetCapacity(c)\<close>, as in the constructor of
  \<open>ShardedLRUCache\<close>, the only place where the class is made and its capacity set.
\<close>

definition LRUCache_new :: "nat \<Rightarrow> LRUCache" where
  "LRUCache_new c =
     \<lparr> capacity = c, usage = 0, lru = [], in_use = [], table = (\<lambda>k. None),
       handles = (\<lambda>a. None), deleted = [] \<rparr>"

text \<open>\<open>HandleTable::Lookup\<close>, \<open>Insert\<close> (which returns the entry it replaces) and \<open>Remove\<close>.\<close>

definition table_Lookup :: "LRUCache \<Rightarrow> bytes \<Rightarrow> nat \<Rightarrow> addr option" where
  "table_Lookup s key hash = table s (key, hash)"

definition table_Insert :: "LRUCache \<Rightarrow> addr \<Rightarrow> (addr option \<times> LRUCache) option" where
  "table_Insert s h =
     (case handles s h of
        None \<Rightarrow> None
      | Some hh \<Rightarrow>
          (let old = table s (h_key hh, h_hash hh)
           in Some (old, s\<lparr> table := (table s)((h_key hh, h_hash hh) \<mapsto> h) \<rparr>)))"

definition table_Remove :: "LRUCache \<Rightarrow> bytes \<Rightarrow> nat \<Rightarrow> addr option \<times> LRUCache" where
  "table_Remove s key hash =
     (let result = table s (key, hash)
      in (result, if result \<noteq> None then s\<lparr> table := (table s)((key, hash) := None) \<rparr> else s))"

text \<open>
  \<open>LRU_Remove(e)\<close> unlinks \<open>e\<close> from the list it is on, \<open>LRU_Append(&lru_, e)\<close> and
  \<open>LRU_Append(&in_use_, e)\<close> make it the newest entry of that list.
\<close>

definition LRU_Remove :: "LRUCache \<Rightarrow> addr \<Rightarrow> LRUCache option" where
  "LRU_Remove s e =
     (if e \<in> set (lru s) \<or> e \<in> set (in_use s)
      then Some (s\<lparr> lru := removeAll e (lru s), in_use := removeAll e (in_use s) \<rparr>)
      else None)"

definition LRU_Append_lru :: "LRUCache \<Rightarrow> addr \<Rightarrow> LRUCache" where
  "LRU_Append_lru s e = s\<lparr> lru := lru s @ [e] \<rparr>"

definition LRU_Append_in_use :: "LRUCache \<Rightarrow> addr \<Rightarrow> LRUCache" where
  "LRU_Append_in_use s e = s\<lparr> in_use := in_use s @ [e] \<rparr>"

text \<open>\<open>LRUCache::Ref\<close> and \<open>LRUCache::Unref\<close>.\<close>

definition Ref :: "LRUCache \<Rightarrow> addr \<Rightarrow> LRUCache option" where
  "Ref s e =
     (case handles s e of
        None \<Rightarrow> None
      | Some h \<Rightarrow>
          (case (if refs h = 1 \<and> in_cache h
                 then (case LRU_Remove s e of
                         None \<Rightarrow> None
                       | Some s \<Rightarrow> Some (LRU_Append_in_use s e))
                 else Some s) of
             None \<Rightarrow> None
           | Some s \<Rightarrow> Some (s\<lparr> handles := (handles s)(e \<mapsto> h\<lparr> refs := (refs h + 1) mod 2 ^ 32 \<rparr>) \<rparr>)))"

definition Unref :: "LRUCache \<Rightarrow> addr \<Rightarrow> LRUCache option" where
  "Unref s e =
     (case handles s e of
        None \<Rightarrow> None
      | Some h \<Rightarrow>
          if \<not> refs h > 0 then None
          else
            (let h = h\<lparr> refs := refs h - 1 \<rparr>;
                 s = s\<lparr> handles := (handles s)(e \<mapsto> h) \<rparr>
             in if refs h = 0
                then (if \<not> \<not> in_cache h then None
                      else Some (s\<lparr> deleted := deleted s @ [(deleter h, h_key h, h_value h)],
                                    handles := (handles s)(e := None) \<rparr>))
                else if in_cache h \<and> refs h = 1
                then (case LRU_Remove s e of
                        None \<Rightarrow> None
                      | Some s \<Rightarrow> Some (LRU_Append_lru s e))
                else Some s))"

text \<open>\<open>bool LRUCache::FinishErase(LRUHandle* e)\<close>.\<close>

definition FinishErase :: "LRUCache \<Rightarrow> addr option \<Rightarrow> (bool \<times> LRUCache) option" where
  "FinishErase s e =
     (case e of
        None \<Rightarrow> Some (False, s)
      | Some e \<Rightarrow>
          (case handles s e of
             None \<Rightarrow> None
           | Some h \<Rightarrow>
               if \<not> in_cache h then None
               else
                 (case LRU_Remove s e of
                    None \<Rightarrow> None
                  | Some s \<Rightarrow>
                      (let s = s\<lparr> handles := (handles s)(e \<mapsto> h\<lparr> in_cache := False \<rparr>) \<rparr>;
                           s = s\<lparr> usage := (usage s + 2 ^ 64 - charge h) mod 2 ^ 64 \<rparr>
                       in case Unref s e of
                            None \<Rightarrow> None
                          | Some s \<Rightarrow> Some (True, s)))))"

text \<open>\<open>LRUCache::Lookup\<close> and \<open>LRUCache::Release\<close>.\<close>

definition Lookup :: "LRUCache \<Rightarrow> bytes \<Rightarrow> nat \<Rightarrow> (addr option \<times> LRUCache) option" where
  "Lookup s key hash =
     (let e = table_Lookup s key hash
      in case e of
           None \<Rightarrow> Some (e, s)
         | Some a \<Rightarrow> (case Ref s a of None \<Rightarrow> None | Some s \<Rightarrow> Some (e, s)))"

definition Release :: "LRUCache \<Rightarrow> addr \<Rightarrow> LRUCache option" where
  "Release s handle = Unref s handle"

text \<open>
  The \<open>while (usage_ > capacity_ && lru_.next != &lru_)\<close> loop of \<open>Insert\<close>.
\<close>

partial_function (option) evict :: "LRUCache \<Rightarrow> LRUCache option" where
  "evict s =
     (if usage s > capacity s \<and> lru s \<noteq> []
      then (let old = hd (lru s) in
            case handles s old of
              None \<Rightarrow> None
            | Some h \<Rightarrow>
                if \<not> refs h = 1 then None
                else
                  (let (r, s) = table_Remove s (h_key h) (h_hash h)
                   in case FinishErase s r of
                        None \<Rightarrow> None
                      | Some (erased, s) \<Rightarrow> if \<not> erased then None else evict s))
      else Some s)"

text \<open>
  \<open>LRUCache::Insert\<close>. The argument \<open>e\<close> is the address that \<open>malloc\<close> returns, which is
  not the address of a live entry. The result is the handle and the new state.
\<close>

definition Insert ::
  "LRUCache \<Rightarrow> addr \<Rightarrow> bytes \<Rightarrow> nat \<Rightarrow> nat \<Rightarrow> nat \<Rightarrow> nat \<Rightarrow> (addr \<times> LRUCache) option" where
  "Insert s e key hash val chrg del =
     (if handles s e \<noteq> None then None
      else
        (let h = \<lparr> h_value = val, deleter = del, charge = chrg, h_key = key,
                   in_cache = False, refs = 1, h_hash = hash \<rparr>;
             s = s\<lparr> handles := (handles s)(e \<mapsto> h) \<rparr>
         in case (if capacity s > 0
                  then (let h = h\<lparr> refs := refs h + 1, in_cache := True \<rparr>;
                            s = s\<lparr> handles := (handles s)(e \<mapsto> h) \<rparr>;
                            s = LRU_Append_in_use s e;
                            s = s\<lparr> usage := (usage s + chrg) mod 2 ^ 64 \<rparr>
                        in case table_Insert s e of
                             None \<Rightarrow> None
                           | Some (old, s) \<Rightarrow>
                               (case FinishErase s old of
                                  None \<Rightarrow> None
                                | Some (erased, s) \<Rightarrow> Some s))
                  else Some s) of
              None \<Rightarrow> None
            | Some s \<Rightarrow> (case evict s of None \<Rightarrow> None | Some s \<Rightarrow> Some (e, s))))"







section \<open>Claim C10: a shard of capacity 0 caches nothing\<close>

















section \<open>The cache when every handle is released\<close>

text \<open>
  The call of a deleter, \<open>(*e->deleter)(e->key(), e->value)\<close>, as it is written to
  \<open>deleted\<close>.
\<close>

definition handle_entry :: "LRUHandle \<Rightarrow> nat \<times> bytes \<times> nat" where
  "handle_entry h = (deleter h, h_key h, h_value h)"

text \<open>\<open>usage_ -= charge\<close> and \<open>usage_ += charge\<close> when they do not wrap around.\<close>

lemma size_t_sub:
  fixes u c :: nat
  assumes "c \<le> u" and "u < 2 ^ 64"
  shows "(u + 18446744073709551616 - c) mod 18446744073709551616 = u - c"
proof -
  define M where "M = (2 :: nat) ^ 64"
  have Mn: "M = 18446744073709551616" by (simp add: M_def)
  from assms have lt: "u - c < M" by (simp add: M_def)
  from assms(1) have "u + M - c = (u - c) + M" by simp
  then have "(u + M - c) mod M = ((u - c) + M) mod M" by (simp only:)
  also have "\<dots> = (u - c) mod M" by (simp only: mod_add_self2)
  also have "\<dots> = u - c" using lt by (rule mod_less)
  finally show ?thesis unfolding Mn .
qed

lemma size_t_add:
  fixes u c :: nat
  assumes "u + c < 2 ^ 64"
  shows "(u + c) mod 18446744073709551616 = u + c"
  using assms by simp

lemma FinishErase_cached:
  assumes "a \<in> set (lru s)" and "a \<notin> set (in_use s)"
    and "handles s a = Some h" and "in_cache h" and "refs h = 1"
    and "charge h \<le> usage s" and "usage s < 2 ^ 64"
  shows "FinishErase s (Some a) =
     Some (True, s\<lparr> lru := removeAll a (lru s),
                    handles := (handles s)(a := None),
                    usage := usage s - charge h,
                    deleted := deleted s @ [handle_entry h] \<rparr>)"
proof -
  note u = size_t_sub [OF assms(6,7)]
  have r: "removeAll a (in_use s) = in_use s" using assms(2) by simp
  show ?thesis
    using assms(1,3,4,5)
    by (simp add: FinishErase_def LRU_Remove_def Unref_def Let_def u r handle_entry_def)
qed


text \<open>
  The shard when every live entry is in the cache, with one reference from the cache and
  at most one from a client: an entry on \<open>lru\<close> has one reference and an entry on
  \<open>in_use\<close> two, the table finds exactly the live entries, each under its own key, and
  the usage is the charge \<open>c\<close> for each of them. \<open>cached\<close> lists the entries of the cache
  as the deleter would be called on them, and \<open>tally\<close> counts how often an entry has been
  deleted or is cached.
\<close>

definition cache_inv :: "nat \<Rightarrow> LRUCache \<Rightarrow> bool" where
  "cache_inv c s \<longleftrightarrow>
     distinct (lru s @ in_use s)
   \<and> (\<forall>a. handles s a \<noteq> None \<longleftrightarrow> a \<in> set (lru s @ in_use s))
   \<and> (\<forall>a h. handles s a = Some h \<longrightarrow>
          in_cache h \<and> charge h = c \<and> table s (h_key h, h_hash h) = Some a
        \<and> refs h = (if a \<in> set (lru s) then 1 else 2))
   \<and> (\<forall>k a. table s k = Some a \<longrightarrow> (\<exists>h. handles s a = Some h \<and> k = (h_key h, h_hash h)))
   \<and> usage s = c * length (lru s @ in_use s)"

definition cached :: "LRUCache \<Rightarrow> (nat \<times> bytes \<times> nat) list" where
  "cached s = map (\<lambda>a. handle_entry (the (handles s a))) (lru s @ in_use s)"

definition tally :: "LRUCache \<Rightarrow> nat \<times> bytes \<times> nat \<Rightarrow> nat" where
  "tally s x = count_list (deleted s) x + count_list (cached s) x"

lemma count_list_map_removeAll:
  assumes "distinct xs" and "a \<in> set xs"
  shows "count_list (map f xs) x
       = count_list (map f (removeAll a xs)) x + (if f a = x then 1 else 0)"
  using assms
proof (induction xs)
  case (Cons b xs)
  show ?case
  proof (cases "b = a")
    case True
    with Cons.prems have "a \<notin> set xs" by simp
    then have "removeAll a xs = xs" by simp
    with True show ?thesis by simp
  next
    case False
    with Cons show ?thesis by simp
  qed
qed simp

text \<open>Erasing a cached, unpinned entry: the state after it, and what it keeps.\<close>

definition erased :: "LRUCache \<Rightarrow> addr \<Rightarrow> LRUHandle \<Rightarrow> LRUCache" where
  "erased s a h =
     s\<lparr> lru := removeAll a (lru s), handles := (handles s)(a := None),
        usage := usage s - charge h, deleted := deleted s @ [handle_entry h] \<rparr>"

lemma cache_inv_erased:
  assumes inv: "cache_inv c s" and a: "a \<in> set (lru s)" and h: "handles s a = Some h"
  shows "cache_inv c ((erased s a h)\<lparr> table := (table s)((h_key h, h_hash h) := None) \<rparr>)"
    (is "cache_inv c ?s'")
proof -
  from inv have d: "distinct (lru s @ in_use s)"
    and live: "\<And>b. handles s b \<noteq> None \<longleftrightarrow> b \<in> set (lru s @ in_use s)"
    and hs: "\<And>b g. handles s b = Some g \<Longrightarrow>
          in_cache g \<and> charge g = c \<and> table s (h_key g, h_hash g) = Some b
        \<and> refs g = (if b \<in> set (lru s) then 1 else 2)"
    and tb: "\<And>k b. table s k = Some b \<Longrightarrow> (\<exists>g. handles s b = Some g \<and> k = (h_key g, h_hash g))"
    and us: "usage s = c * length (lru s @ in_use s)"
    unfolding cache_inv_def by blast+
  from d a have ni: "a \<notin> set (in_use s)" by auto
  have l': "lru ?s' = removeAll a (lru s)" "in_use ?s' = in_use s"
    "handles ?s' = (handles s)(a := None)"
    "table ?s' = (table s)((h_key h, h_hash h) := None)"
    "usage ?s' = usage s - charge h"
    by (simp_all add: erased_def)
  have c1: "distinct (lru ?s' @ in_use ?s')"
    unfolding l' using d by (auto simp: distinct_removeAll)
  have c2: "\<forall>b. handles ?s' b \<noteq> None \<longleftrightarrow> b \<in> set (lru ?s' @ in_use ?s')"
    unfolding l' using live ni by auto
  have c3: "\<forall>b g. handles ?s' b = Some g \<longrightarrow>
          in_cache g \<and> charge g = c \<and> table ?s' (h_key g, h_hash g) = Some b
        \<and> refs g = (if b \<in> set (lru ?s') then 1 else 2)"
  proof (intro allI impI)
    fix b g assume "handles ?s' b = Some g"
    then have ba: "b \<noteq> a" and g: "handles s b = Some g"
      unfolding l' by (auto split: if_splits)
    note p = hs [OF g]
    have "(h_key g, h_hash g) \<noteq> (h_key h, h_hash h)"
    proof
      assume "(h_key g, h_hash g) = (h_key h, h_hash h)"
      with p hs [OF h] have "b = a" by simp
      with ba show False by simp
    qed
    with p ba show "in_cache g \<and> charge g = c \<and> table ?s' (h_key g, h_hash g) = Some b
        \<and> refs g = (if b \<in> set (lru ?s') then 1 else 2)"
      unfolding l' by simp
  qed
  have c4: "\<forall>k b. table ?s' k = Some b \<longrightarrow> (\<exists>g. handles ?s' b = Some g \<and> k = (h_key g, h_hash g))"
  proof (intro allI impI)
    fix k b assume t: "table ?s' k = Some b"
    then have k: "k \<noteq> (h_key h, h_hash h)" and t0: "table s k = Some b"
      unfolding l' by (auto split: if_splits)
    from tb [OF t0] obtain g where g: "handles s b = Some g" "k = (h_key g, h_hash g)" by blast
    with k h have "b \<noteq> a" by auto
    with g show "\<exists>g. handles ?s' b = Some g \<and> k = (h_key g, h_hash g)"
      unfolding l' by simp
  qed
  have "length (removeAll a (lru s)) + 1 = length (lru s)"
    using d a by (simp add: distinct_remove1_removeAll [symmetric] length_remove1)
      (cases "lru s", auto)
  then have "c * length (lru s @ in_use s) = c * length (removeAll a (lru s) @ in_use s) + c"
    by (simp add: algebra_simps) (metis add.commute mult_Suc_right Suc_eq_plus1)
  with us hs [OF h] have c5: "usage ?s' = c * length (lru ?s' @ in_use ?s')"
    unfolding l' by simp
  from c1 c2 c3 c4 c5 show ?thesis unfolding cache_inv_def by blast
qed


lemma tally_erased:
  assumes inv: "cache_inv c s" and a: "a \<in> set (lru s)" and h: "handles s a = Some h"
  shows "tally ((erased s a h)\<lparr> table := t \<rparr>) x = tally s x"
proof -
  let ?f = "\<lambda>b. handle_entry (the (handles s b))"
  let ?g = "\<lambda>b. handle_entry (the (((handles s)(a := None)) b))"
  from inv have d: "distinct (lru s @ in_use s)" unfolding cache_inv_def by blast
  from d a have ni: "a \<notin> set (in_use s)" and dl: "distinct (lru s)" by auto
  have "map ?g (removeAll a (lru s) @ in_use s) = map ?f (removeAll a (lru s) @ in_use s)"
    using ni by (intro map_cong refl) auto
  then have c: "cached ((erased s a h)\<lparr> table := t \<rparr>)
       = map ?f (removeAll a (lru s)) @ map ?f (in_use s)"
    by (simp add: cached_def erased_def)
  have c0: "cached s = map ?f (lru s) @ map ?f (in_use s)" by (simp add: cached_def)
  have fa: "?f a = handle_entry h" using h by simp
  from count_list_map_removeAll [OF dl a, of ?f x] fa
  have "count_list (map ?f (lru s)) x
       = count_list (map ?f (removeAll a (lru s))) x + (if handle_entry h = x then 1 else 0)"
    by simp
  then show ?thesis
    unfolding tally_def c c0 by (simp add: erased_def)
qed

lemma evict_step:
  assumes inv: "cache_inv c s" and l: "lru s = a # rest" and big: "usage s > capacity s"
    and lt: "usage s < 2 ^ 64"
  shows "\<exists>h. handles s a = Some h
     \<and> evict s = evict ((erased s a h)\<lparr> table := (table s)((h_key h, h_hash h) := None) \<rparr>)"
proof -
  from inv have d: "distinct (lru s @ in_use s)"
    and live: "\<And>b. handles s b \<noteq> None \<longleftrightarrow> b \<in> set (lru s @ in_use s)"
    and hs: "\<And>b g. handles s b = Some g \<Longrightarrow>
          in_cache g \<and> charge g = c \<and> table s (h_key g, h_hash g) = Some b
        \<and> refs g = (if b \<in> set (lru s) then 1 else 2)"
    and us: "usage s = c * length (lru s @ in_use s)"
    unfolding cache_inv_def by blast+
  from l have a: "a \<in> set (lru s)" by simp
  with live [of a] obtain h where h: "handles s a = Some h" by auto
  from d a have ni: "a \<notin> set (in_use s)" by auto
  note p = hs [OF h]
  from p a have ic: "in_cache h" and rf: "refs h = 1" and ch: "charge h = c"
    and tb: "table s (h_key h, h_hash h) = Some a" by simp_all
  from us l ch have cu: "charge h \<le> usage s" by simp
  let ?s1 = "s\<lparr> table := (table s)((h_key h, h_hash h) := None) \<rparr>"
  have tr: "table_Remove s (h_key h) (h_hash h) = (Some a, ?s1)"
    using tb by (simp add: table_Remove_def Let_def)
  have fe: "FinishErase ?s1 (Some a) = Some (True, erased ?s1 a h)"
    unfolding erased_def
    by (rule FinishErase_cached) (use a ni h ic rf cu lt in simp_all)
  have e: "erased ?s1 a h = (erased s a h)\<lparr> table := (table s)((h_key h, h_hash h) := None) \<rparr>"
    by (simp add: erased_def)
  have "evict s = evict (erased ?s1 a h)"
    using big l h rf tr fe
    by (subst evict.simps) (simp add: Let_def)
  with h e show ?thesis by simp
qed


lemma evict_result:
  assumes "cache_inv c s" and "usage s < 2 ^ 64"
  shows "\<exists>s'. evict s = Some s' \<and> cache_inv c s' \<and> capacity s' = capacity s
       \<and> in_use s' = in_use s \<and> (usage s' \<le> capacity s' \<or> lru s' = [])
       \<and> usage s' \<le> usage s \<and> (\<forall>x. tally s' x = tally s x)"
  using assms
proof (induction "lru s" arbitrary: s)
  case Nil
  then have "evict s = Some s" by (subst evict.simps) simp
  with Nil show ?case by auto
next
  case (Cons a rest)
  note inv = \<open>cache_inv c s\<close> and lt = \<open>usage s < 2 ^ 64\<close>
  from Cons.hyps(2) have l: "lru s = a # rest" by simp
  show ?case
  proof (cases "usage s > capacity s")
    case False
    then have "evict s = Some s" by (subst evict.simps) simp
    with False inv show ?thesis by auto
  next
    case True
    from evict_step [OF inv l True lt] obtain h where h: "handles s a = Some h"
      and ev: "evict s = evict ((erased s a h)\<lparr> table := (table s)((h_key h, h_hash h) := None) \<rparr>)"
      by blast
    let ?s1 = "(erased s a h)\<lparr> table := (table s)((h_key h, h_hash h) := None) \<rparr>"
    from l have a: "a \<in> set (lru s)" by simp
    note inv1 = cache_inv_erased [OF inv a h]
    note t1 = tally_erased [OF inv a h, of "(table s)((h_key h, h_hash h) := None)"]
    from inv have "distinct (lru s)" unfolding cache_inv_def by simp
    with l have "a \<notin> set rest" by simp
    then have l1: "rest = lru ?s1" using l by (simp add: erased_def)
    have u1: "usage ?s1 \<le> usage s" by (simp add: erased_def)
    with lt have lt1: "usage ?s1 < 2 ^ 64" by simp
    from Cons.hyps(1) [OF l1 inv1 lt1] obtain s' where
      "evict ?s1 = Some s'" "cache_inv c s'" "capacity s' = capacity ?s1"
      "in_use s' = in_use ?s1" "usage s' \<le> capacity s' \<or> lru s' = []"
      "usage s' \<le> usage ?s1" "\<forall>x. tally s' x = tally ?s1 x"
      by blast
    with ev t1 u1 show ?thesis
      by (intro exI [of _ s']) (simp add: erased_def)
  qed
qed


text \<open>Installing a new entry with the two references of \<open>Insert\<close>.\<close>

definition installed :: "LRUCache \<Rightarrow> addr \<Rightarrow> LRUHandle \<Rightarrow> LRUCache" where
  "installed s e h =
     s\<lparr> handles := (handles s)(e \<mapsto> h), in_use := in_use s @ [e],
        usage := usage s + charge h, table := (table s)((h_key h, h_hash h) \<mapsto> e) \<rparr>"

lemma cache_inv_installed:
  assumes inv: "cache_inv c s" and fresh: "handles s e = None"
    and free: "table s (h_key h, h_hash h) = None"
    and h: "in_cache h" "charge h = c" "refs h = 2"
  shows "cache_inv c (installed s e h)" (is "cache_inv c ?s'")
proof -
  from inv have d: "distinct (lru s @ in_use s)"
    and live: "\<And>b. handles s b \<noteq> None \<longleftrightarrow> b \<in> set (lru s @ in_use s)"
    and hs: "\<And>b g. handles s b = Some g \<Longrightarrow>
          in_cache g \<and> charge g = c \<and> table s (h_key g, h_hash g) = Some b
        \<and> refs g = (if b \<in> set (lru s) then 1 else 2)"
    and tb: "\<And>k b. table s k = Some b \<Longrightarrow> (\<exists>g. handles s b = Some g \<and> k = (h_key g, h_hash g))"
    and us: "usage s = c * length (lru s @ in_use s)"
    unfolding cache_inv_def by blast+
  from live [of e] fresh have ne: "e \<notin> set (lru s)" "e \<notin> set (in_use s)" by auto
  have l': "lru ?s' = lru s" "in_use ?s' = in_use s @ [e]"
    "handles ?s' = (handles s)(e \<mapsto> h)"
    "table ?s' = (table s)((h_key h, h_hash h) \<mapsto> e)"
    "usage ?s' = usage s + charge h"
    by (simp_all add: installed_def)
  have c1: "distinct (lru ?s' @ in_use ?s')"
    unfolding l' using d ne by auto
  have c2: "\<forall>b. handles ?s' b \<noteq> None \<longleftrightarrow> b \<in> set (lru ?s' @ in_use ?s')"
    unfolding l' using live by auto
  have c3: "\<forall>b g. handles ?s' b = Some g \<longrightarrow>
          in_cache g \<and> charge g = c \<and> table ?s' (h_key g, h_hash g) = Some b
        \<and> refs g = (if b \<in> set (lru ?s') then 1 else 2)"
  proof (intro allI impI)
    fix b g assume g: "handles ?s' b = Some g"
    show "in_cache g \<and> charge g = c \<and> table ?s' (h_key g, h_hash g) = Some b
        \<and> refs g = (if b \<in> set (lru ?s') then 1 else 2)"
    proof (cases "b = e")
      case True
      with g have "g = h" unfolding l' by simp
      with True h ne show ?thesis unfolding l' by simp
    next
      case False
      with g have g0: "handles s b = Some g" unfolding l' by simp
      note p = hs [OF g0]
      with free have "(h_key g, h_hash g) \<noteq> (h_key h, h_hash h)" by auto
      with p show ?thesis unfolding l' by auto
    qed
  qed
  have c4: "\<forall>k b. table ?s' k = Some b \<longrightarrow> (\<exists>g. handles ?s' b = Some g \<and> k = (h_key g, h_hash g))"
  proof (intro allI impI)
    fix k b assume t: "table ?s' k = Some b"
    show "\<exists>g. handles ?s' b = Some g \<and> k = (h_key g, h_hash g)"
    proof (cases "k = (h_key h, h_hash h)")
      case True
      with t have "b = e" unfolding l' by simp
      with True show ?thesis unfolding l' by simp
    next
      case False
      with t have t0: "table s k = Some b" unfolding l' by simp
      from tb [OF t0] obtain g where g: "handles s b = Some g" "k = (h_key g, h_hash g)" by blast
      with fresh have "b \<noteq> e" by auto
      with g show ?thesis unfolding l' by simp
    qed
  qed
  have c5: "usage ?s' = c * length (lru ?s' @ in_use ?s')"
    unfolding l' using us h(2) by simp
  from c1 c2 c3 c4 c5 show ?thesis unfolding cache_inv_def by blast
qed

lemma tally_installed:
  assumes inv: "cache_inv c s" and fresh: "handles s e = None"
  shows "tally (installed s e h) x = tally s x + (if x = handle_entry h then 1 else 0)"
proof -
  let ?f = "\<lambda>b. handle_entry (the (handles s b))"
  let ?g = "\<lambda>b. handle_entry (the (((handles s)(e \<mapsto> h)) b))"
  from inv have live: "\<And>b. handles s b \<noteq> None \<longleftrightarrow> b \<in> set (lru s @ in_use s)"
    unfolding cache_inv_def by blast
  from live [of e] fresh have ne: "e \<notin> set (lru s @ in_use s)" by auto
  have "map ?g (lru s @ in_use s) = map ?f (lru s @ in_use s)"
    using ne by (intro map_cong refl) auto
  then have "cached (installed s e h) = cached s @ [handle_entry h]"
    by (simp add: cached_def installed_def)
  then show ?thesis by (auto simp: tally_def installed_def)
qed


lemma Insert_pre_evict:
  assumes inv: "cache_inv c s" and nu: "in_use s = []" and fresh: "handles s e = None"
    and cap: "capacity s > 0" and lt: "usage s + c < 2 ^ 64"
    and hn: "hn = \<lparr> h_value = val, deleter = del, charge = c, h_key = key,
                      in_cache = True, refs = 2, h_hash = hash \<rparr>"
  shows "\<exists>s0. cache_inv c s0 \<and> in_use s0 = [] \<and> handles s0 e = None
        \<and> table s0 (key, hash) = None \<and> capacity s0 = capacity s \<and> usage s0 \<le> usage s
        \<and> (\<forall>x. tally s0 x = tally s x)
        \<and> Insert s e key hash val c del =
            (case evict (installed s0 e hn) of None \<Rightarrow> None | Some s' \<Rightarrow> Some (e, s'))"
proof (cases "table s (key, hash)")
  have hn': "hn = \<lparr> h_value = val, deleter = del, charge = c, h_key = key,
                      in_cache = True, refs = Suc (Suc 0), h_hash = hash \<rparr>"
    by (simp add: hn numeral_2_eq_2)
  case None
  have "Insert s e key hash val c del =
            (case evict (installed s e hn) of None \<Rightarrow> None | Some s' \<Rightarrow> Some (e, s'))"
    using fresh cap None nu size_t_add [OF lt]
    by (simp add: Insert_def Let_def LRU_Append_in_use_def table_Insert_def FinishErase_def
        installed_def hn')
  with inv nu fresh None show ?thesis by (intro exI [of _ s]) simp
next
  case (Some a)
  have hn': "hn = \<lparr> h_value = val, deleter = del, charge = c, h_key = key,
                      in_cache = True, refs = Suc (Suc 0), h_hash = hash \<rparr>"
    by (simp add: hn numeral_2_eq_2)
  from inv have live: "\<And>b. handles s b \<noteq> None \<longleftrightarrow> b \<in> set (lru s @ in_use s)"
    and hs: "\<And>b g. handles s b = Some g \<Longrightarrow>
          in_cache g \<and> charge g = c \<and> table s (h_key g, h_hash g) = Some b
        \<and> refs g = (if b \<in> set (lru s) then 1 else 2)"
    and tb: "\<And>k b. table s k = Some b \<Longrightarrow> (\<exists>g. handles s b = Some g \<and> k = (h_key g, h_hash g))"
    and us: "usage s = c * length (lru s @ in_use s)"
    unfolding cache_inv_def by blast+
  from tb [OF Some] obtain ha where ha: "handles s a = Some ha"
    and k: "h_key ha = key" "h_hash ha = hash" by auto
  from live [of a] ha nu have al: "a \<in> set (lru s)" by simp
  from ha fresh have ae: "a \<noteq> e" by auto
  note p = hs [OF ha]
  from p al have ic: "in_cache ha" and rf: "refs ha = 1" and ch: "charge ha = c" by simp_all
  from al have "length (lru s) \<ge> 1" by (cases "lru s") simp_all
  then have "c * 1 \<le> c * length (lru s)" by (intro mult_le_mono2)
  with us nu have cu: "c \<le> usage s" by simp
  let ?s0 = "(erased s a ha)\<lparr> table := (table s)((key, hash) := None) \<rparr>"
  let ?sb = "s\<lparr> handles := (handles s)(e \<mapsto> hn), in_use := [e], usage := usage s + c,
                 table := (table s)((key, hash) \<mapsto> e) \<rparr>"
  have fe: "FinishErase ?sb (Some a) =
     Some (True, ?sb\<lparr> lru := removeAll a (lru ?sb),
                    handles := (handles ?sb)(a := None),
                    usage := usage ?sb - charge ha,
                    deleted := deleted ?sb @ [handle_entry ha] \<rparr>)"
    by (rule FinishErase_cached) (use al ae ha ic rf ch lt in simp_all)
  have eq: "?sb\<lparr> lru := removeAll a (lru ?sb),
                    handles := (handles ?sb)(a := None),
                    usage := usage ?sb - charge ha,
                    deleted := deleted ?sb @ [handle_entry ha] \<rparr> = installed ?s0 e hn"
    using ae cu ch nu
    by (simp add: installed_def erased_def hn fun_upd_twist)
  have ins: "Insert s e key hash val c del =
            (case evict (installed ?s0 e hn) of None \<Rightarrow> None | Some s' \<Rightarrow> Some (e, s'))"
    unfolding eq [symmetric]
    using fresh cap Some nu size_t_add [OF lt] fe
    by (simp add: Insert_def Let_def LRU_Append_in_use_def table_Insert_def hn')
  have i0: "cache_inv c ?s0"
    using cache_inv_erased [OF inv al ha] k by simp
  have t0: "\<forall>x. tally ?s0 x = tally s x"
    using tally_erased [OF inv al ha] by simp
  from i0 t0 ins nu ae fresh show ?thesis
    by (intro exI [of _ ?s0]) (simp add: erased_def)
qed


lemma Release_pinned:
  assumes inv: "cache_inv c s" and iu: "in_use s = [e]"
  shows "\<exists>s'. Release s e = Some s' \<and> cache_inv c s' \<and> in_use s' = []
       \<and> lru s' = lru s @ [e] \<and> capacity s' = capacity s \<and> usage s' = usage s
       \<and> table s' = table s \<and> (\<forall>x. tally s' x = tally s x)"
proof -
  from inv have d: "distinct (lru s @ in_use s)"
    and live: "\<And>b. handles s b \<noteq> None \<longleftrightarrow> b \<in> set (lru s @ in_use s)"
    and hs: "\<And>b g. handles s b = Some g \<Longrightarrow>
          in_cache g \<and> charge g = c \<and> table s (h_key g, h_hash g) = Some b
        \<and> refs g = (if b \<in> set (lru s) then 1 else 2)"
    and tb: "\<And>k b. table s k = Some b \<Longrightarrow> (\<exists>g. handles s b = Some g \<and> k = (h_key g, h_hash g))"
    and us: "usage s = c * length (lru s @ in_use s)"
    unfolding cache_inv_def by blast+
  from d iu have nl: "e \<notin> set (lru s)" by auto
  from live [of e] iu obtain h where h: "handles s e = Some h" by auto
  from hs [OF h] nl have ic: "in_cache h" and rf: "refs h = Suc (Suc 0)" and ch: "charge h = c"
    and th: "table s (h_key h, h_hash h) = Some e" by (simp_all add: numeral_2_eq_2)
  let ?s' = "s\<lparr> handles := (handles s)(e \<mapsto> h\<lparr> refs := Suc 0 \<rparr>), lru := lru s @ [e],
                 in_use := [] \<rparr>"
  have rl: "Release s e = Some ?s'"
    using h ic rf iu nl
    by (simp add: Release_def Unref_def Let_def LRU_Remove_def LRU_Append_lru_def)
  have l': "lru ?s' = lru s @ [e]" "in_use ?s' = []"
    "handles ?s' = (handles s)(e \<mapsto> h\<lparr> refs := Suc 0 \<rparr>)"
    "table ?s' = table s" "usage ?s' = usage s"
    by simp_all
  have c1: "distinct (lru ?s' @ in_use ?s')" unfolding l' using d iu by simp
  have c2: "\<forall>b. handles ?s' b \<noteq> None \<longleftrightarrow> b \<in> set (lru ?s' @ in_use ?s')"
    unfolding l' using live iu by auto
  have c3: "\<forall>b g. handles ?s' b = Some g \<longrightarrow>
          in_cache g \<and> charge g = c \<and> table ?s' (h_key g, h_hash g) = Some b
        \<and> refs g = (if b \<in> set (lru ?s') then 1 else 2)"
  proof (intro allI impI)
    fix b g assume g: "handles ?s' b = Some g"
    show "in_cache g \<and> charge g = c \<and> table ?s' (h_key g, h_hash g) = Some b
        \<and> refs g = (if b \<in> set (lru ?s') then 1 else 2)"
    proof (cases "b = e")
      case True
      with g have "g = h\<lparr> refs := Suc 0 \<rparr>" unfolding l' by simp
      with True ic ch th show ?thesis unfolding l' by simp
    next
      case False
      with g have g0: "handles s b = Some g" unfolding l' by simp
      from hs [OF g0] False show ?thesis unfolding l' by simp
    qed
  qed
  have c4: "\<forall>k b. table ?s' k = Some b \<longrightarrow> (\<exists>g. handles ?s' b = Some g \<and> k = (h_key g, h_hash g))"
  proof (intro allI impI)
    fix k b assume t: "table ?s' k = Some b"
    then have t0: "table s k = Some b" by simp
    from tb [OF t0] obtain g where g: "handles s b = Some g" "k = (h_key g, h_hash g)" by blast
    show "\<exists>g. handles ?s' b = Some g \<and> k = (h_key g, h_hash g)"
    proof (cases "b = e")
      case True
      with g h show ?thesis unfolding l' by simp
    next
      case False
      with g show ?thesis unfolding l' by simp
    qed
  qed
  have c5: "usage ?s' = c * length (lru ?s' @ in_use ?s')"
    unfolding l' using us iu by simp
  from c1 c2 c3 c4 c5 have inv': "cache_inv c ?s'" unfolding cache_inv_def by blast
  have "map (\<lambda>a. handle_entry (the (((handles s)(e \<mapsto> h\<lparr> refs := Suc 0 \<rparr>)) a))) (lru s @ [e])
      = map (\<lambda>a. handle_entry (the (handles s a))) (lru s @ [e])"
    using h by (intro map_cong refl) (auto simp: handle_entry_def)
  then have "cached ?s' = cached s" by (simp add: cached_def iu)
  then have t: "\<forall>x. tally ?s' x = tally s x" by (simp add: tally_def)
  from rl inv' t show ?thesis by (intro exI [of _ ?s']) simp
qed

lemma insert_release_step:
  assumes inv: "cache_inv c s" and nu: "in_use s = []" and fresh: "handles s e = None"
    and cap: "0 < capacity s" and cC: "c \<le> capacity s" and ltC: "capacity s + c < 2 ^ 64"
    and uC: "usage s \<le> capacity s"
  shows "\<exists>s1 s2. Insert s e key hash val c del = Some (e, s1) \<and> Release s1 e = Some s2
       \<and> cache_inv c s2 \<and> in_use s2 = [] \<and> capacity s2 = capacity s
       \<and> usage s2 \<le> capacity s2
       \<and> (\<forall>x. tally s2 x = tally s x + (if x = (del, key, val) then 1 else 0))"
proof -
  define hn where "hn = \<lparr> h_value = val, deleter = del, charge = c, h_key = key,
                      in_cache = True, refs = 2, h_hash = hash \<rparr>"
  from uC ltC have lt: "usage s + c < 2 ^ 64" by simp
  from Insert_pre_evict [OF inv nu fresh cap lt hn_def, of] obtain s0 where
    i0: "cache_inv c s0" and n0: "in_use s0 = []" and f0: "handles s0 e = None"
    and t0: "table s0 (key, hash) = None" and c0: "capacity s0 = capacity s"
    and u0: "usage s0 \<le> usage s" and ta0: "\<forall>x. tally s0 x = tally s x"
    and ins: "Insert s e key hash val c del =
            (case evict (installed s0 e hn) of None \<Rightarrow> None | Some s' \<Rightarrow> Some (e, s'))"
    by blast
  let ?si = "installed s0 e hn"
  have hp: "in_cache hn" "charge hn = c" "refs hn = 2" "h_key hn = key" "h_hash hn = hash"
    "handle_entry hn = (del, key, val)"
    by (simp_all add: hn_def handle_entry_def)
  have ii: "cache_inv c ?si"
    by (rule cache_inv_installed [OF i0 f0 _ hp(1,2,3)]) (simp add: hp t0)
  have ui: "usage ?si = usage s0 + c" "in_use ?si = [e]" "capacity ?si = capacity s"
    by (simp_all add: installed_def hp n0 c0)
  from ui u0 lt have lti: "usage ?si < 2 ^ 64" by simp
  from evict_result [OF ii lti] obtain s1 where
    ev: "evict ?si = Some s1" and i1: "cache_inv c s1" and c1: "capacity s1 = capacity ?si"
    and n1: "in_use s1 = in_use ?si" and b1: "usage s1 \<le> capacity s1 \<or> lru s1 = []"
    and ta1: "\<forall>x. tally s1 x = tally ?si x"
    by blast
  from ins ev have ins1: "Insert s e key hash val c del = Some (e, s1)" by simp
  from n1 ui have n1': "in_use s1 = [e]" by simp
  from i1 have us1: "usage s1 = c * length (lru s1 @ in_use s1)"
    and hs1: "\<And>b g. handles s1 b = Some g \<Longrightarrow>
          in_cache g \<and> charge g = c \<and> table s1 (h_key g, h_hash g) = Some b
        \<and> refs g = (if b \<in> set (lru s1) then 1 else 2)"
    and live1: "\<And>b. handles s1 b \<noteq> None \<longleftrightarrow> b \<in> set (lru s1 @ in_use s1)"
    unfolding cache_inv_def by blast+
  have ub: "usage s1 \<le> capacity s1"
  proof (cases "lru s1 = []")
    case True
    with us1 n1' cC c1 ui show ?thesis by simp
  next
    case False
    with b1 show ?thesis by simp
  qed
  from Release_pinned [OF i1 n1'] obtain s2 where
    rl: "Release s1 e = Some s2" and i2: "cache_inv c s2" and n2: "in_use s2 = []"
    and c2: "capacity s2 = capacity s1" and u2: "usage s2 = usage s1"
    and tb2: "table s2 = table s1" and ta2: "\<forall>x. tally s2 x = tally s1 x"
    by blast
  have tal: "\<forall>x. tally s2 x = tally s x + (if x = (del, key, val) then 1 else 0)"
    using ta2 ta1 ta0 tally_installed [OF i0 f0, of hn] hp(6) by simp
  from ins1 rl i2 n2 c2 c1 ui ub u2 tal show ?thesis
    by (intro exI [of _ s1] exI [of _ s2]) simp
qed


text \<open>
  A workload of inserts whose handles are released: \<open>released_inserts c s ws t\<close> when the
  calls \<open>Release(Insert(key, hash, value, c, deleter))\<close> for the entries \<open>ws\<close>, in
  order, lead from \<open>s\<close> to \<open>t\<close>; \<open>malloc\<close> may return any address that is not live.
  \<open>inserted_entry\<close> is the call of the deleter that an inserted entry is due.
\<close>

inductive released_inserts ::
  "nat \<Rightarrow> LRUCache \<Rightarrow> (bytes \<times> nat \<times> nat \<times> nat) list \<Rightarrow> LRUCache \<Rightarrow> bool"
  for c :: nat and s :: LRUCache where
  released_none: "released_inserts c s [] s"
| released_insert:
    "released_inserts c s ws s1 \<Longrightarrow> Insert s1 e key hash val c del = Some (h, s2) \<Longrightarrow>
     Release s2 h = Some s3 \<Longrightarrow> released_inserts c s (ws @ [(key, hash, val, del)]) s3"

definition inserted_entry :: "bytes \<times> nat \<times> nat \<times> nat \<Rightarrow> nat \<times> bytes \<times> nat" where
  "inserted_entry w = (case w of (key, hash, val, del) \<Rightarrow> (del, key, val))"

lemma Insert_returns_handle:
  "Insert s e key hash val c del = Some (h, s') \<Longrightarrow> h = e \<and> handles s e = None"
  by (auto simp: Insert_def Let_def split: option.splits if_splits)

lemma cache_inv_new: "cache_inv c (LRUCache_new C)"
  by (simp add: cache_inv_def LRUCache_new_def)

lemma released_inserts_inv:
  assumes run: "released_inserts c (LRUCache_new C) ws t"
    and C: "0 < C" "c \<le> C" "C + c < 2 ^ 64"
  shows "cache_inv c t \<and> in_use t = [] \<and> capacity t = C \<and> usage t \<le> C
       \<and> (\<forall>x. tally t x = count_list (map inserted_entry ws) x)"
  using run
proof (induction rule: released_inserts.induct)
  case released_none
  have "in_use (LRUCache_new C) = [] \<and> capacity (LRUCache_new C) = C
      \<and> usage (LRUCache_new C) \<le> C
      \<and> (\<forall>x. tally (LRUCache_new C) x = count_list (map inserted_entry []) x)"
    by (simp add: LRUCache_new_def tally_def cached_def)
  with cache_inv_new [of c C] show ?case by blast
next
  case (released_insert ws s1 e key hash val del h s2 s3)
  from released_insert.IH have inv: "cache_inv c s1" and nu: "in_use s1 = []"
    and cp: "capacity s1 = C" and us: "usage s1 \<le> C"
    and ta: "\<forall>x. tally s1 x = count_list (map inserted_entry ws) x" by simp_all
  from Insert_returns_handle [OF released_insert(2)] have he: "h = e"
    and fresh: "handles s1 e = None" by simp_all
  from insert_release_step [OF inv nu fresh, of key hash val del] C cp us
  obtain t1 t2 where "Insert s1 e key hash val c del = Some (e, t1)" "Release t1 e = Some t2"
    "cache_inv c t2" "in_use t2 = []" "capacity t2 = capacity s1" "usage t2 \<le> capacity t2"
    "\<forall>x. tally t2 x = tally s1 x + (if x = (del, key, val) then 1 else 0)"
    by auto
  with released_insert(2,3) he have e: "t2 = s3" by simp
  have ie: "inserted_entry (key, hash, val, del) = (del, key, val)"
    by (simp add: inserted_entry_def)
  have "\<forall>x. tally s3 x = count_list (map inserted_entry (ws @ [(key, hash, val, del)])) x"
  proof
    fix x
    from \<open>\<forall>x. tally t2 x = tally s1 x + (if x = (del, key, val) then 1 else 0)\<close>
    have a: "tally t2 x = tally s1 x + (if x = (del, key, val) then 1 else 0)" by (rule spec)
    from ta have b: "tally s1 x = count_list (map inserted_entry ws) x" by (rule spec)
    from a b have "tally s3 x = count_list (map inserted_entry ws) x
                         + (if x = (del, key, val) then 1 else 0)"
      unfolding e by simp
    then show "tally s3 x = count_list (map inserted_entry (ws @ [(key, hash, val, del)])) x"
      by (simp add: ie)
  qed
  with \<open>cache_inv c t2\<close> \<open>in_use t2 = []\<close> \<open>capacity t2 = capacity s1\<close>
    \<open>usage t2 \<le> capacity t2\<close> cp
  show ?case unfolding e by simp
qed


text \<open>
  Examples on a shard of capacity 1. \<open>pinned_cache_2\<close>: after \<open>Insert("a")\<close> and
  \<open>Insert("b")\<close> of charge 1 whose handles are kept. \<open>oversized_cache\<close>: after an insert
  of charge 2 and the release of its handle. \<open>released_cache_2\<close>: after \<open>Insert("a")\<close> and
  \<open>Insert("b")\<close> of charge 1, each handle released at once.
\<close>

lemmas cache_eval_defs =
  Insert_def Release_def Unref_def FinishErase_def LRU_Remove_def LRU_Append_lru_def
  LRU_Append_in_use_def table_Insert_def table_Remove_def table_Lookup_def Lookup_def
  LRUCache_new_def evict.simps Let_def

definition pinned_cache_1 :: LRUCache where
  "pinned_cache_1 = snd (the (Insert (LRUCache_new 1) 0 [97] 1 10 1 0))"

definition pinned_cache_2 :: LRUCache where
  "pinned_cache_2 = snd (the (Insert pinned_cache_1 1 [98] 2 20 1 0))"

lemma pinned_cache_1_eval:
  "Insert (LRUCache_new 1) 0 [97] 1 10 1 0 = Some (0, pinned_cache_1)"
  by (simp add: pinned_cache_1_def cache_eval_defs)

lemma pinned_cache_2_eval:
  "Insert pinned_cache_1 1 [98] 2 20 1 0 = Some (1, pinned_cache_2)"
  by (simp add: pinned_cache_2_def pinned_cache_1_def cache_eval_defs)

lemma pinned_cache_2_facts:
  "capacity pinned_cache_2 = 1" "usage pinned_cache_2 = 2" "in_use pinned_cache_2 = [0, 1]"
  "lru pinned_cache_2 = []" "deleted pinned_cache_2 = []"
  by (simp_all add: pinned_cache_2_def pinned_cache_1_def cache_eval_defs)


lemma count_list_distinct:
  "distinct xs \<Longrightarrow> x \<in> set xs \<Longrightarrow> count_list xs x = 1"
proof (induction xs)
  case (Cons y ys)
  show ?case
  proof (cases "y = x")
    case True
    with Cons.prems have "x \<notin> set ys" by simp
    then have "count_list ys x = 0" by (simp add: count_list_0_iff)
    with True show ?thesis by simp
  next
    case False
    with Cons show ?thesis by simp
  qed
qed simp

lemma cached_present:
  assumes "cache_inv c t" and "a \<in> set (lru t @ in_use t)"
  shows "\<exists>h. handles t a = Some h \<and> in_cache h \<and> table t (h_key h, h_hash h) = Some a"
proof -
  from assms(1) have live: "\<And>b. handles t b \<noteq> None \<longleftrightarrow> b \<in> set (lru t @ in_use t)"
    and hs: "\<And>b g. handles t b = Some g \<Longrightarrow>
          in_cache g \<and> charge g = c \<and> table t (h_key g, h_hash g) = Some b
        \<and> refs g = (if b \<in> set (lru t) then 1 else 2)"
    unfolding cache_inv_def by blast+
  from live [of a] assms(2) obtain h where h: "handles t a = Some h" by auto
  from hs [OF h] h show ?thesis by simp
qed

lemma released_inserts_result:
  assumes C: "0 < C" "c \<le> C" "C + c < 2 ^ 64"
    and run: "released_inserts c (LRUCache_new C) ws t"
  shows "usage t \<le> C \<and> in_use t = []
     \<and> (\<forall>x. count_list (deleted t) x + count_list (cached t) x
              = count_list (map inserted_entry ws) x)
     \<and> (\<forall>a \<in> set (lru t). \<exists>h. handles t a = Some h \<and> in_cache h
              \<and> table t (h_key h, h_hash h) = Some a)
     \<and> (distinct (map inserted_entry ws) \<longrightarrow>
           (\<forall>x \<in> set (map inserted_entry ws).
               (x \<in> set (cached t) \<and> x \<notin> set (deleted t))
             \<or> (x \<notin> set (cached t) \<and> count_list (deleted t) x = 1)))
     \<and> (\<forall>e key hash val del. handles t e = None \<longrightarrow>
           (\<exists>s1 s2. Insert t e key hash val c del = Some (e, s1) \<and> Release s1 e = Some s2
              \<and> released_inserts c (LRUCache_new C) (ws @ [(key, hash, val, del)]) s2))"
proof -
  from released_inserts_inv [OF run C] have inv: "cache_inv c t" and nu: "in_use t = []"
    and cp: "capacity t = C" and us: "usage t \<le> C"
    and ta: "\<And>x. tally t x = count_list (map inserted_entry ws) x" by blast+
  have c3: "\<forall>x. count_list (deleted t) x + count_list (cached t) x
              = count_list (map inserted_entry ws) x"
    using ta by (simp add: tally_def)
  have c4: "\<forall>a \<in> set (lru t). \<exists>h. handles t a = Some h \<and> in_cache h
              \<and> table t (h_key h, h_hash h) = Some a"
    using cached_present [OF inv] by simp
  have c5: "distinct (map inserted_entry ws) \<longrightarrow>
           (\<forall>x \<in> set (map inserted_entry ws).
               (x \<in> set (cached t) \<and> x \<notin> set (deleted t))
             \<or> (x \<notin> set (cached t) \<and> count_list (deleted t) x = 1))"
  proof (intro impI ballI)
    fix x assume d: "distinct (map inserted_entry ws)" and x: "x \<in> set (map inserted_entry ws)"
    then have "count_list (map inserted_entry ws) x = 1" by (simp add: count_list_distinct)
    moreover from c3 have "count_list (deleted t) x + count_list (cached t) x
              = count_list (map inserted_entry ws) x" by (rule spec)
    ultimately have s: "count_list (deleted t) x + count_list (cached t) x = 1" by simp
    show "(x \<in> set (cached t) \<and> x \<notin> set (deleted t))
             \<or> (x \<notin> set (cached t) \<and> count_list (deleted t) x = 1)"
    proof (cases "count_list (cached t) x = 0")
      case True
      with s show ?thesis by (simp add: count_list_0_iff)
    next
      case False
      with s have "count_list (deleted t) x = 0" by simp
      with False show ?thesis by (simp add: count_list_0_iff)
    qed
  qed
  have c6: "\<forall>e key hash val del. handles t e = None \<longrightarrow>
           (\<exists>s1 s2. Insert t e key hash val c del = Some (e, s1) \<and> Release s1 e = Some s2
              \<and> released_inserts c (LRUCache_new C) (ws @ [(key, hash, val, del)]) s2)"
  proof (intro allI impI)
    fix e key hash val del assume fresh: "handles t e = None"
    from insert_release_step [OF inv nu fresh, of key hash val del] C cp us
    obtain s1 s2 where i: "Insert t e key hash val c del = Some (e, s1)"
      and r: "Release s1 e = Some s2" by auto
    from released_insert [OF run i r] i r
    show "\<exists>s1 s2. Insert t e key hash val c del = Some (e, s1) \<and> Release s1 e = Some s2
              \<and> released_inserts c (LRUCache_new C) (ws @ [(key, hash, val, del)]) s2"
      by blast
  qed
  from us nu c3 c4 c5 c6 show ?thesis by blast
qed

section \<open>Claim C3: usage and deleters after a workload of inserts\<close>

text \<open>
  C3 (amended). For a shard of capacity \<open>C > 0\<close> and a workload of inserts of one charge
  \<open>c \<le> C\<close> (with \<open>C + c < 2^64\<close>), each handle released before the next insert: after
  the workload the usage is at most \<open>C\<close> and no entry is pinned; every entry has been
  given to its deleter or is still in the cache, as many times together as it was
  inserted, and an entry in the cache is found in the table under its key; so, when the
  inserted entries are different, each is either still in the cache, its deleter not
  called, or not in the cache, its deleter called exactly once. The workload can always
  go on: on any address that is not live, \<open>Insert\<close> and the \<open>Release\<close> of its handle
  return.
\<close>

theorem released_inserts_within_capacity:
  assumes "0 < C" and "c \<le> C" and "C + c < 2 ^ 64"
    and "released_inserts c (LRUCache_new C) ws t"
  shows "usage t \<le> C \<and> in_use t = []
     \<and> (\<forall>x. count_list (deleted t) x + count_list (cached t) x
              = count_list (map inserted_entry ws) x)
     \<and> (\<forall>a \<in> set (lru t). \<exists>h. handles t a = Some h \<and> in_cache h
              \<and> table t (h_key h, h_hash h) = Some a)
     \<and> (distinct (map inserted_entry ws) \<longrightarrow>
           (\<forall>x \<in> set (map inserted_entry ws).
               (x \<in> set (cached t) \<and> x \<notin> set (deleted t))
             \<or> (x \<notin> set (cached t) \<and> count_list (deleted t) x = 1)))
     \<and> (\<forall>e key hash val del. handles t e = None \<longrightarrow>
           (\<exists>s1 s2. Insert t e key hash val c del = Some (e, s1) \<and> Release s1 e = Some s2
              \<and> released_inserts c (LRUCache_new C) (ws @ [(key, hash, val, del)]) s2))"
  using released_inserts_result [OF assms] .

definition released_cache_1 :: LRUCache where
  "released_cache_1 = the (Release pinned_cache_1 0)"

definition released_cache_2 :: LRUCache where
  "released_cache_2 =
     the (Release (snd (the (Insert released_cache_1 1 [98] 2 20 1 0))) 1)"

lemma released_cache_eval:
  "Release pinned_cache_1 0 = Some released_cache_1"
  "Insert released_cache_1 1 [98] 2 20 1 0
     = Some (1, snd (the (Insert released_cache_1 1 [98] 2 20 1 0)))"
  "Release (snd (the (Insert released_cache_1 1 [98] 2 20 1 0))) 1 = Some released_cache_2"
  by (simp_all add: released_cache_2_def released_cache_1_def pinned_cache_1_def
      cache_eval_defs)

lemma released_cache_2_facts:
  "capacity released_cache_2 = 1" "usage released_cache_2 = 1" "lru released_cache_2 = [1]"
  "in_use released_cache_2 = []" "deleted released_cache_2 = [(0, [97], 10)]"
  "cached released_cache_2 = [(0, [98], 20)]"
  "table released_cache_2 ([97], 1) = None" "table released_cache_2 ([98], 2) = Some 1"
  by (simp_all add: released_cache_2_def released_cache_1_def pinned_cache_1_def
      cache_eval_defs cached_def handle_entry_def)


definition oversized_cache :: LRUCache where
  "oversized_cache =
     the (Release (snd (the (Insert (LRUCache_new 1) 0 [97] 1 10 2 0))) 0)"

lemma oversized_cache_eval:
  "Insert (LRUCache_new 1) 0 [97] 1 10 2 0
     = Some (0, snd (the (Insert (LRUCache_new 1) 0 [97] 1 10 2 0)))"
  "Release (snd (the (Insert (LRUCache_new 1) 0 [97] 1 10 2 0))) 0 = Some oversized_cache"
  "capacity oversized_cache = 1" "usage oversized_cache = 2" "lru oversized_cache = [0]"
  "in_use oversized_cache = []" "deleted oversized_cache = []"
  by (simp_all add: oversized_cache_def cache_eval_defs)

text \<open>
  C3 as it is stated, for workloads of \<open>Insert\<close> calls only: the handle that \<open>Insert\<close>
  returns holds a reference, an entry with a reference from a client is on \<open>in_use\<close> and
  is never evicted, and two inserts of charge 1 into a shard of capacity 1 leave the
  usage at 2. And an entry of charge 2, even released, stays in a shard of capacity 1
  until the next insert.
\<close>

theorem Insert_only_exceeds_capacity_counterexample:
  "Insert (LRUCache_new 1) 0 [97] 1 10 1 0 = Some (0, pinned_cache_1)
   \<and> Insert pinned_cache_1 1 [98] 2 20 1 0 = Some (1, pinned_cache_2)
   \<and> capacity pinned_cache_2 = 1 \<and> usage pinned_cache_2 = 2
   \<and> in_use pinned_cache_2 = [0, 1] \<and> lru pinned_cache_2 = []
   \<and> deleted pinned_cache_2 = []
   \<and> \<not> usage pinned_cache_2 \<le> capacity pinned_cache_2
   \<and> Release (snd (the (Insert (LRUCache_new 1) 0 [97] 1 10 2 0))) 0 = Some oversized_cache
   \<and> capacity oversized_cache = 1 \<and> usage oversized_cache = 2
   \<and> \<not> usage oversized_cache \<le> capacity oversized_cache"
  using pinned_cache_1_eval pinned_cache_2_eval pinned_cache_2_facts oversized_cache_eval
  by simp

text \<open>
  With the handles released, the second insert evicts the first entry and calls its
  deleter.
\<close>

theorem released_inserts_within_capacity_witness:
  "(0 :: nat) < 1 \<and> (1 :: nat) \<le> 1 \<and> (1 :: nat) + 1 < 2 ^ 64
   \<and> released_inserts 1 (LRUCache_new 1) [([97], 1, 10, 0), ([98], 2, 20, 0)] released_cache_2
   \<and> usage released_cache_2 \<le> 1 \<and> usage released_cache_2 = 1
   \<and> lru released_cache_2 = [1] \<and> in_use released_cache_2 = []
   \<and> deleted released_cache_2 = [(0, [97], 10)]
   \<and> cached released_cache_2 = [(0, [98], 20)]
   \<and> table released_cache_2 ([97], 1) = None \<and> table released_cache_2 ([98], 2) = Some 1
   \<and> distinct (map inserted_entry [([97], 1, 10, 0), ([98], 2, 20, 0)])"
proof -
  have c: "(0 :: nat) < 1" "(1 :: nat) \<le> 1" "(1 :: nat) + 1 < 2 ^ 64" by simp_all
  from released_insert [OF released_insert [OF released_none pinned_cache_1_eval
        released_cache_eval(1)] released_cache_eval(2) released_cache_eval(3)]
  have run: "released_inserts 1 (LRUCache_new 1) [([97], 1, 10, 0), ([98], 2, 20, 0)]
               released_cache_2" by simp
  from released_inserts_within_capacity [OF c run]
  have u: "usage released_cache_2 \<le> 1" by blast
  have d: "distinct (map inserted_entry [([97], 1, 10, 0), ([98], 2, 20, 0)])"
    by (simp add: inserted_entry_def)
  from c run u d released_cache_2_facts show ?thesis by simp
qed

end
